theory Spec2Isabelle
  imports
    Complex_Main
    "HOL-Library.Char_ord"
    "HOL-Library.List_Lexorder"
    "HOL-Library.Product_Lexorder"
    "HOL-Library.Multiset"
    "HOL-Library.Log_Nat"
begin

section \<open>Data model\<close>

text \<open>
  The application (\<^verbatim>\<open>app.py\<close>) keeps booking documents in one MongoDB collection and
  recomputes every analytic from the full collection on each request. The collection is
  modelled as the list of its documents in the order \<^verbatim>\<open>find()\<close> returns them, which is
  insertion order for documents that are only ever inserted, as here.

  A naive \<^verbatim>\<open>datetime\<close> is the tuple of its seven calendar fields; Python compares two of
  them field by field, most significant first.
\<close>

datatype datetime =
  Datetime (year: nat) (month: nat) (day: nat) (hour: nat) (minute: nat) (second: nat)
    (microsecond: nat)

definition dt_key :: "datetime \<Rightarrow> nat \<times> nat \<times> nat \<times> nat \<times> nat \<times> nat \<times> nat" where
  "dt_key t = (year t, month t, day t, hour t, minute t, second t, microsecond t)"

instantiation datetime :: linorder
begin

definition less_eq_datetime :: "datetime \<Rightarrow> datetime \<Rightarrow> bool" where
  "less_eq_datetime a b \<longleftrightarrow> dt_key a \<le> dt_key b"

definition less_datetime :: "datetime \<Rightarrow> datetime \<Rightarrow> bool" where
  "less_datetime a b \<longleftrightarrow> dt_key a < dt_key b"

instance
proof
  fix a b c :: datetime
  show "a < b \<longleftrightarrow> a \<le> b \<and> \<not> b \<le> a"
    unfolding less_eq_datetime_def less_datetime_def by (rule less_le_not_le)
  show "a \<le> a"
    unfolding less_eq_datetime_def by simp
  show "a \<le> b \<Longrightarrow> b \<le> c \<Longrightarrow> a \<le> c"
    unfolding less_eq_datetime_def by (rule order_trans)
  show "a = b" if "a \<le> b" and "b \<le> a"
  proof -
    from that have "dt_key a = dt_key b"
      unfolding less_eq_datetime_def by (rule antisym)
    then show ?thesis
      by (simp add: dt_key_def datetime.expand)
  qed
  show "a \<le> b \<or> b \<le> a"
    unfolding less_eq_datetime_def by (rule linear)
qed

end

text \<open>The value range of Python's \<^verbatim>\<open>datetime\<close> type (MINYEAR is 1, MAXYEAR is 9999).\<close>

definition valid_datetime :: "datetime \<Rightarrow> bool" where
  "valid_datetime t \<longleftrightarrow>
     1 \<le> year t \<and> year t \<le> 9999 \<and> 1 \<le> month t \<and> month t \<le> 12 \<and>
     1 \<le> day t \<and> day t \<le> 31 \<and> hour t < 24 \<and> minute t < 60 \<and> second t < 60 \<and>
     microsecond t < 1000000"

text \<open>
  A stored booking document: the seven keys \<^verbatim>\<open>book_ticket\<close> writes, and the \<^verbatim>\<open>_id\<close> the
  driver adds on insertion (kept in its string form). \<^verbatim>\<open>request.remote_addr\<close> may be
  \<^verbatim>\<open>None\<close>.
\<close>

record booking =
  oid :: string
  name :: string
  source :: string
  destination :: string
  fingerprint :: string
  fingerprint_hash :: string
  timestamp :: datetime
  ip_address :: "string option"

datatype error =
    ValidationError string    \<comment> \<open>HTTP 400, \<^verbatim>\<open>{'error': ...}\<close>\<close>
  | InternalError string      \<comment> \<open>HTTP 500, the \<^verbatim>\<open>except Exception\<close> branch\<close>

section \<open>Library functions the application calls\<close>

subsection \<open>Formatting\<close>

definition digit_char :: "nat \<Rightarrow> char" where
  "digit_char d = char_of (48 + d)"

text \<open>The decimal numeral of a natural number, as \<^verbatim>\<open>%d\<close> prints it.\<close>

fun decimal :: "nat \<Rightarrow> string" where
  "decimal n = (if n < 10 then [digit_char n] else decimal (n div 10) @ [digit_char (n mod 10)])"

declare decimal.simps [simp del]

text \<open>\<^verbatim>\<open>%0wd\<close>: zeros on the left up to width \<open>w\<close>, nothing cut off.\<close>

definition zero_pad :: "nat \<Rightarrow> nat \<Rightarrow> string" where
  "zero_pad w n = replicate (w - length (decimal n)) (CHR ''0'') @ decimal n"

text \<open>\<^verbatim>\<open>strftime('%Y-%m-%d %H:00')\<close>, the year zero-filled to four digits.\<close>

definition strftime_hour :: "datetime \<Rightarrow> string" where
  "strftime_hour t =
     zero_pad 4 (year t) @ ''-'' @ zero_pad 2 (month t) @ ''-'' @ zero_pad 2 (day t) @
     '' '' @ zero_pad 2 (hour t) @ '':00''"

text \<open>\<^verbatim>\<open>datetime.isoformat()\<close>: the fraction is printed only when it is not zero.\<close>

definition isoformat :: "datetime \<Rightarrow> string" where
  "isoformat t =
     zero_pad 4 (year t) @ ''-'' @ zero_pad 2 (month t) @ ''-'' @ zero_pad 2 (day t) @
     ''T'' @ zero_pad 2 (hour t) @ '':'' @ zero_pad 2 (minute t) @ '':'' @
     zero_pad 2 (second t) @
     (if microsecond t = 0 then [] else ''.'' @ zero_pad 6 (microsecond t))"

text \<open>
  The f-string \<^verbatim>\<open>f"{b['source']} \<rightarrow> {b['destination']}"\<close>; the arrow U+2192 is the three
  bytes E2 86 92 in UTF-8.
\<close>

definition arrow :: string where
  "arrow = [char_of (226::nat), char_of (134::nat), char_of (146::nat)]"

definition route :: "booking \<Rightarrow> string" where
  "route b = source b @ '' '' @ arrow @ '' '' @ destination b"

subsection \<open>Sorting, maximum, sets\<close>

text \<open>
  \<^verbatim>\<open>sorted(xs, key=f)\<close> is a stable ascending sort. With \<^verbatim>\<open>reverse=True\<close> CPython
  reverses the list, sorts it stably and reverses the result, so that equal keys keep
  their original relative order.
\<close>

definition sorted_by :: "('a \<Rightarrow> 'k::linorder) \<Rightarrow> 'a list \<Rightarrow> 'a list" where
  "sorted_by f xs = sort_key f xs"

definition sorted_by_reverse :: "('a \<Rightarrow> 'k::linorder) \<Rightarrow> 'a list \<Rightarrow> 'a list" where
  "sorted_by_reverse f xs = rev (sort_key f (rev xs))"

text \<open>
  \<^verbatim>\<open>max(key(x) for x in xs)\<close> raises \<^verbatim>\<open>ValueError\<close> on an empty sequence; the handler of
  the route turns it into a 500 response.
\<close>

fun py_max :: "'k::linorder list \<Rightarrow> error + 'k" where
  "py_max [] = Inl (InternalError ''max() arg is an empty sequence'')"
| "py_max (x # xs) = Inr (foldl (\<lambda>m y. if m < y then y else m) x xs)"

text \<open>
  \<^verbatim>\<open>list(set(xs))\<close>: the distinct elements of \<open>xs\<close>. Python leaves the iteration order
  of a set open (it follows the hashes); the model lists the elements in the order of
  their last occurrence, and no statement below depends on that order.
\<close>

definition list_of_set :: "'a list \<Rightarrow> 'a list" where
  "list_of_set xs = remdups xs"

text \<open>\<^verbatim>\<open>xs[-24:]\<close>, the last 24 elements (all of them when there are fewer).\<close>

definition last_24 :: "'a list \<Rightarrow> 'a list" where
  "last_24 xs = drop (length xs - 24) xs"

subsection \<open>Insertion-ordered dictionaries of counters\<close>

text \<open>
  A Python \<^verbatim>\<open>dict\<close> iterates in the order its keys were first inserted, so it is an
  association list here. \<^verbatim>\<open>d[k] = d.get(k, 0) + 1\<close> updates the entry of \<open>k\<close> in place,
  or appends a new entry; \<^verbatim>\<open>Counter(iterable)\<close> does the same for each element.
\<close>

fun dict_incr :: "'k \<Rightarrow> ('k \<times> nat) list \<Rightarrow> ('k \<times> nat) list" where
  "dict_incr k [] = [(k, 1)]"
| "dict_incr k ((k', v) # kvs) =
     (if k' = k then (k', v + 1) # kvs else (k', v) # dict_incr k kvs)"

definition Counter :: "'k list \<Rightarrow> ('k \<times> nat) list" where
  "Counter xs = foldl (\<lambda>d k. dict_incr k d) [] xs"

subsection \<open>Floating point and rounding\<close>

text \<open>
  Python's \<^verbatim>\<open>float\<close> is IEEE 754 binary64. A finite float is represented by the rational
  number it denotes, and every operation returns the float nearest to the exact result, a
  tie going to the even significand: \<open>binary_exponent x\<close> is the exponent \<open>e\<close> with
  \<open>2\<^sup>e \<le> x < 2\<^sup>e\<^sup>+\<^sup>1\<close>, \<open>double_ulp x\<close> the spacing of the floats around \<open>x\<close> (53
  significant bits, the subnormal spacing below \<open>2\<^sup>-\<^sup>1\<^sup>0\<^sup>2\<^sup>2\<close>), and
  \<open>nearest_double x\<close> the rounded value. Overflow is left out: every value rounded below
  lies between 0 and 100.
\<close>

definition round_half_even :: "rat \<Rightarrow> int" where
  "round_half_even x =
     (let f = \<lfloor>x\<rfloor>; d = x - of_int f
      in if d < 1 / 2 then f else if 1 / 2 < d then f + 1 else if even f then f else f + 1)"

definition binary_exponent :: "rat \<Rightarrow> int" where
  "binary_exponent x =
     (case quotient_of x of (a, b) \<Rightarrow>
        let e = bitlen a - bitlen b in if 2 powi e \<le> x then e else e - 1)"

definition double_ulp :: "rat \<Rightarrow> rat" where
  "double_ulp x = 2 powi (max (binary_exponent \<bar>x\<bar>) (- 1022) - 52)"

definition nearest_double :: "rat \<Rightarrow> rat" where
  "nearest_double x =
     (if x = 0 then 0 else of_int (round_half_even (x / double_ulp x)) * double_ulp x)"

text \<open>
  \<^verbatim>\<open>round(x, 2)\<close> on a float: CPython prints \<open>x\<close> correctly rounded to two decimal
  places (a tie of the exact binary value going to the even digit) and reads the decimal
  back as the nearest float.
\<close>

definition py_round2 :: "rat \<Rightarrow> rat" where
  "py_round2 x = nearest_double (of_int (round_half_even (x * 100)) / 100)"

section \<open>The collection\<close>

text \<open>
  The four driver calls the routes make, on the list of documents. The store never
  fails in this model, so the 500 responses for a failing store are not part of it.
\<close>

definition insert_one :: "booking list \<Rightarrow> booking \<Rightarrow> booking list" where
  "insert_one coll doc = coll @ [doc]"

definition count_documents :: "booking list \<Rightarrow> string \<Rightarrow> nat" where
  "count_documents coll fp = length (filter (\<lambda>b. fingerprint b = fp) coll)"

definition find_all :: "booking list \<Rightarrow> booking list" where
  "find_all coll = coll"

definition delete_many :: "booking list \<Rightarrow> booking list" where
  "delete_many coll = []"

section \<open>\<^verbatim>\<open>POST /book\<close>\<close>

text \<open>
  What a request brings besides its JSON body: the clock reading of
  \<^verbatim>\<open>datetime.utcnow()\<close>, the peer address, and the \<^verbatim>\<open>ObjectId\<close> the driver generates for
  the inserted document. (The store keeps a timestamp to the millisecond; the document
  of the model keeps the clock reading, and no statement below depends on the
  difference.)
\<close>

record request_env =
  utcnow :: datetime
  remote_addr :: "string option"
  new_oid :: string

record book_response =
  success :: bool
  booking_id :: string
  booking_count :: nat
  is_suspicious :: bool
  message :: string

definition required_fields :: "string list" where
  "required_fields = [''name'', ''source'', ''destination'', ''fingerprint'']"

text \<open>\<^verbatim>\<open>data[k]\<close> raises \<^verbatim>\<open>KeyError\<close> for a missing key.\<close>

definition subscript :: "(string \<rightharpoonup> string) \<Rightarrow> string \<Rightarrow> error + string" where
  "subscript data k = (case data k of None \<Rightarrow> Inl (InternalError k) | Some v \<Rightarrow> Inr v)"

text \<open>
  The JSON body is an object whose member values are strings, as the data model has
  them. \<open>md5_hex\<close> stands for \<^verbatim>\<open>hashlib.md5(s.encode()).hexdigest()\<close>. The result pairs
  the collection after the request with the response.
\<close>

definition book_ticket ::
  "(string \<Rightarrow> string) \<Rightarrow> request_env \<Rightarrow> (string \<rightharpoonup> string) \<Rightarrow> booking list \<Rightarrow>
     booking list \<times> (error + book_response)" where
  "book_ticket md5_hex env data coll =
     (if \<not> list_all (\<lambda>field. field \<in> dom data) required_fields
      then (coll, Inl (ValidationError ''Missing required fields''))
      else
        case (subscript data ''name'', subscript data ''source'',
              subscript data ''destination'', subscript data ''fingerprint'') of
          (Inr n, Inr s, Inr d, Inr fp) \<Rightarrow>
            let doc = \<lparr> oid = new_oid env, name = n, source = s, destination = d,
                        fingerprint = fp, fingerprint_hash = take 8 (md5_hex fp),
                        timestamp = utcnow env, ip_address = remote_addr env \<rparr>;
                coll' = insert_one coll doc;
                n_docs = count_documents coll' fp
            in (coll', Inr \<lparr> success = True, booking_id = oid doc, booking_count = n_docs,
                             is_suspicious = (3 < n_docs),
                             message = ''Ticket booked successfully!'' \<rparr>)
        | (Inl e, _, _, _) \<Rightarrow> (coll, Inl e)
        | (_, Inl e, _, _) \<Rightarrow> (coll, Inl e)
        | (_, _, Inl e, _) \<Rightarrow> (coll, Inl e)
        | (_, _, _, Inl e) \<Rightarrow> (coll, Inl e))"

section \<open>\<^verbatim>\<open>GET /api/analytics\<close>\<close>

text \<open>
  The JSON objects of the response as records. The keys \<^verbatim>\<open>booking_count\<close> and
  \<^verbatim>\<open>is_suspicious\<close> of a detail are the fields \<open>detail_count\<close> and
  \<open>detail_suspicious\<close>, since the booking response has keys of the same names;
  \<^verbatim>\<open>count\<close> of a timeline point is \<open>point_count\<close>. The constant
  \<^verbatim>\<open>'success': True\<close> is left out. Every stored document has the key
  \<^verbatim>\<open>ip_address\<close>, so \<^verbatim>\<open>b.get('ip_address', 'N/A')\<close> returns the stored value.
\<close>

record history_entry =
  entry_name :: string
  entry_route :: string
  entry_timestamp :: string
  entry_ip :: "string option"

record fingerprint_detail =
  fingerprint_id :: string
  full_fingerprint :: string
  detail_count :: nat
  detail_suspicious :: bool
  names_used :: "string list"
  routes :: "string list"
  last_booking :: string
  bookings :: "history_entry list"

record timeline_point =
  time :: string
  point_count :: nat

record summary_t =
  total_bookings :: nat
  unique_fingerprints :: nat
  suspicious_users :: nat
  suspicious_bookings :: nat
  fraud_rate :: rat

record report =
  summary :: summary_t
  fingerprint_details :: "fingerprint_detail list"
  timeline :: "timeline_point list"

definition history_of :: "booking \<Rightarrow> history_entry" where
  "history_of b = \<lparr> entry_name = name b, entry_route = route b,
                     entry_timestamp = isoformat (timestamp b), entry_ip = ip_address b \<rparr>"

text \<open>One pass of the loop over \<^verbatim>\<open>fingerprint_counts.items()\<close>.\<close>

fun detail_of ::
  "(string \<Rightarrow> string) \<Rightarrow> booking list \<Rightarrow> string \<times> nat \<Rightarrow> error + fingerprint_detail" where
  "detail_of md5_hex all_bookings (fp, n) =
       (let fp_bookings = filter (\<lambda>b. fingerprint b = fp) all_bookings;
            names = list_of_set (map name fp_bookings);
            rts = list_of_set (map route fp_bookings)
        in case py_max (map timestamp fp_bookings) of
             Inl e \<Rightarrow> Inl e
           | Inr newest \<Rightarrow>
               Inr \<lparr> fingerprint_id = take 8 (md5_hex fp), full_fingerprint = fp,
                     detail_count = n, detail_suspicious = (3 < n),
                     names_used = names, routes = rts,
                     last_booking = isoformat newest,
                     bookings = map history_of (sorted_by_reverse timestamp fp_bookings) \<rparr>)"

declare detail_of.simps [simp del]

text \<open>The loop itself: it appends one detail per item and stops at the first exception.\<close>

fun build_details ::
  "(string \<Rightarrow> string) \<Rightarrow> booking list \<Rightarrow> (string \<times> nat) list \<Rightarrow>
     error + fingerprint_detail list" where
  "build_details md5_hex all_bookings [] = Inr []"
| "build_details md5_hex all_bookings (item # items) =
     (case detail_of md5_hex all_bookings item of
        Inl e \<Rightarrow> Inl e
      | Inr d \<Rightarrow>
          (case build_details md5_hex all_bookings items of
             Inl e \<Rightarrow> Inl e
           | Inr ds \<Rightarrow> Inr (d # ds)))"

text \<open>
  \<^verbatim>\<open>round(suspicious_bookings / total_bookings * 100, 2) if total_bookings > 0 else 0\<close>:
  the true division of two integers is correctly rounded, and so is the product with 100.
\<close>

definition fraud_rate_of :: "nat \<Rightarrow> nat \<Rightarrow> rat" where
  "fraud_rate_of n_suspicious n_total =
     (if 0 < n_total
      then py_round2 (nearest_double (nearest_double (of_nat n_suspicious / of_nat n_total) * 100))
      else 0)"

definition get_analytics :: "(string \<Rightarrow> string) \<Rightarrow> booking list \<Rightarrow> error + report" where
  "get_analytics md5_hex coll =
     (let all_bookings = find_all coll;
          fingerprint_counts = Counter (map fingerprint all_bookings);
          suspicious_fingerprints = filter (\<lambda>(fp, n). 3 < n) fingerprint_counts;
          n_unique = length fingerprint_counts;
          n_total = length all_bookings;
          n_suspicious = sum_list (map snd suspicious_fingerprints)
      in case build_details md5_hex all_bookings fingerprint_counts of
           Inl e \<Rightarrow> Inl e
         | Inr details \<Rightarrow>
             let sorted_details = sorted_by_reverse detail_count details;
                 timeline_data =
                   foldl (\<lambda>d b. dict_incr (strftime_hour (timestamp b)) d) [] all_bookings;
                 tl = sorted_by time
                        (map (\<lambda>(k, v). \<lparr> time = k, point_count = v \<rparr>) timeline_data)
             in Inr \<lparr> summary =
                        \<lparr> total_bookings = n_total, unique_fingerprints = n_unique,
                          suspicious_users = length suspicious_fingerprints,
                          suspicious_bookings = n_suspicious,
                          fraud_rate = fraud_rate_of n_suspicious n_total \<rparr>,
                      fingerprint_details = sorted_details,
                      timeline = last_24 tl \<rparr>)"

section \<open>\<^verbatim>\<open>POST /api/clear\<close>\<close>

definition clear_data :: "booking list \<Rightarrow> booking list" where
  "clear_data coll = delete_many coll"

section \<open>Notions used to state the properties\<close>

text \<open>
  The elements of a list in the order of their first occurrence, the events of one
  fingerprint in collection order, and the values the analytics are proved to return.
\<close>

definition first_seen :: "'a list \<Rightarrow> 'a list" where
  "first_seen xs = rev (remdups (rev xs))"

definition group_of :: "booking list \<Rightarrow> string \<Rightarrow> booking list" where
  "group_of bs fp = filter (\<lambda>b. fingerprint b = fp) bs"

definition the_detail :: "(string \<Rightarrow> string) \<Rightarrow> booking list \<Rightarrow> string \<Rightarrow> fingerprint_detail" where
  "the_detail md5_hex bs fp =
     \<lparr> fingerprint_id = take 8 (md5_hex fp), full_fingerprint = fp,
       detail_count = length (group_of bs fp),
       detail_suspicious = (3 < length (group_of bs fp)),
       names_used = list_of_set (map name (group_of bs fp)),
       routes = list_of_set (map route (group_of bs fp)),
       last_booking = isoformat (Max (timestamp ` set (group_of bs fp))),
       bookings = map history_of (sorted_by_reverse timestamp (group_of bs fp)) \<rparr>"

definition the_timeline :: "booking list \<Rightarrow> timeline_point list" where
  "the_timeline bs =
     (let ks = map (\<lambda>b. strftime_hour (timestamp b)) bs
      in last_24 (sorted_by time
           (map (\<lambda>k. \<lparr> time = k, point_count = count_list ks k \<rparr>) (first_seen ks))))"

definition the_summary :: "booking list \<Rightarrow> summary_t" where
  "the_summary bs =
     (let ks = first_seen (map fingerprint bs);
          sus = filter (\<lambda>fp. 3 < length (group_of bs fp)) ks;
          n_sus = sum_list (map (\<lambda>fp. length (group_of bs fp)) sus)
      in \<lparr> total_bookings = length bs, unique_fingerprints = length ks,
           suspicious_users = length sus, suspicious_bookings = n_sus,
           fraud_rate = fraud_rate_of n_sus (length bs) \<rparr>)"

definition the_details :: "(string \<Rightarrow> string) \<Rightarrow> booking list \<Rightarrow> fingerprint_detail list" where
  "the_details md5_hex bs =
     sorted_by_reverse detail_count
       (map (the_detail md5_hex bs) (first_seen (map fingerprint bs)))"

text \<open>
  The hour of a timestamp as the tuple (year, month, day, hour), ordered
  lexicographically, which is chronological order; the label \<^verbatim>\<open>strftime\<close> prints for it;
  and the timestamps the theorem on the timeline is stated for: values of the
  \<^verbatim>\<open>datetime\<close> type with a four-digit year. (The C library prints years below 1000
  without zero-filling on some platforms; \<^verbatim>\<open>datetime.utcnow()\<close> never returns one.)
\<close>

definition bucket_label :: "nat \<times> nat \<times> nat \<times> nat \<Rightarrow> string" where
  "bucket_label b =
     (case b of (y, m, d, h) \<Rightarrow>
        zero_pad 4 y @ ''-'' @ zero_pad 2 m @ ''-'' @ zero_pad 2 d @ '' '' @ zero_pad 2 h @
        '':00'')"

definition valid_bucket :: "nat \<times> nat \<times> nat \<times> nat \<Rightarrow> bool" where
  "valid_bucket b = (case b of (y, m, d, h) \<Rightarrow> y < 10000 \<and> m < 100 \<and> d < 100 \<and> h < 100)"

definition hour_bucket :: "datetime \<Rightarrow> nat \<times> nat \<times> nat \<times> nat" where
  "hour_bucket t = (year t, month t, day t, hour t)"

definition stored_timestamp :: "datetime \<Rightarrow> bool" where
  "stored_timestamp t \<longleftrightarrow> valid_datetime t \<and> 1000 \<le> year t"

section \<open>Example data\<close>

text \<open>
  A stand-in for the digest function, a small collection (four events of one
  fingerprint, three of another, three of them at the same instant), a request
  environment and a complete payload, used to instantiate the theorems below.
\<close>

definition ex_md5 :: "string \<Rightarrow> string" where
  "ex_md5 s = s"

definition ex_booking :: "string \<Rightarrow> string \<Rightarrow> string \<Rightarrow> datetime \<Rightarrow> booking" where
  "ex_booking i n fp t =
     \<lparr> oid = i, name = n, source = ''Pune'', destination = ''Delhi'', fingerprint = fp,
       fingerprint_hash = take 8 fp, timestamp = t, ip_address = Some ''10.0.0.7'' \<rparr>"

definition ex_log :: "booking list" where
  "ex_log =
     [ex_booking ''1'' ''asha'' ''fp-B'' (Datetime 2024 5 17 9 3 1 0),
      ex_booking ''2'' ''ravi'' ''fp-A'' (Datetime 2024 5 17 9 30 0 0),
      ex_booking ''3'' ''ravi'' ''fp-A'' (Datetime 2024 5 17 10 5 0 250000),
      ex_booking ''4'' ''asha'' ''fp-B'' (Datetime 2024 5 17 10 5 0 250000),
      ex_booking ''5'' ''r. k.'' ''fp-A'' (Datetime 2024 5 17 10 5 0 250000),
      ex_booking ''6'' ''asha'' ''fp-B'' (Datetime 2024 5 18 0 0 0 0),
      ex_booking ''7'' ''ravi'' ''fp-A'' (Datetime 2024 5 17 9 30 0 0)]"

definition ex_env :: request_env where
  "ex_env = \<lparr> utcnow = Datetime 2024 5 18 7 45 12 345678, remote_addr = Some ''10.0.0.7'',
              new_oid = ''665f1c2e9b1d8a0012345678'' \<rparr>"

definition ex_payload :: "string \<rightharpoonup> string" where
  "ex_payload = [''name'' \<mapsto> ''asha'', ''source'' \<mapsto> ''Pune'', ''destination'' \<mapsto> ''Delhi'',
                 ''fingerprint'' \<mapsto> ''fp-B'']"

text \<open>Thirty events in thirty consecutive hours.\<close>

definition ex_hours :: "booking list" where
  "ex_hours =
     map (\<lambda>i. ex_booking ''9'' ''asha'' ''fp-C'' (Datetime 2024 5 (1 + i div 24) (i mod 24) 15 0 0))
       [0..<30]"

section \<open>What the analytics compute\<close>

subsection \<open>Counting, and the report in closed form\<close>

lemma first_seen_snoc:
  "first_seen (xs @ [x]) = (if x \<in> set xs then first_seen xs else first_seen xs @ [x])"
  by (simp add: first_seen_def)

lemma set_first_seen [simp]: "set (first_seen xs) = set xs"
  by (simp add: first_seen_def)

lemma distinct_first_seen [simp]: "distinct (first_seen xs)"
  by (simp add: first_seen_def)

lemma dict_incr_map:
  "distinct ks \<Longrightarrow>
   dict_incr x (map (\<lambda>k. (k, c k)) ks) =
     (if x \<in> set ks then map (\<lambda>k. (k, if k = x then c k + 1 else c k)) ks
      else map (\<lambda>k. (k, c k)) ks @ [(x, 1)])"
  by (induction ks) auto

lemma Counter_snoc: "Counter (xs @ [x]) = dict_incr x (Counter xs)"
  by (simp add: Counter_def)

lemma Counter_eq: "Counter xs = map (\<lambda>k. (k, count_list xs k)) (first_seen xs)"
proof (induction xs rule: rev_induct)
  case Nil
  show ?case by (simp add: Counter_def first_seen_def)
next
  case (snoc x xs)
  have "x \<notin> set xs \<Longrightarrow> count_list xs x = 0"
    by (simp add: count_list_0_iff)
  then show ?case
    by (auto simp: Counter_snoc snoc.IH dict_incr_map first_seen_snoc)
qed

lemma dict_fold_eq_Counter:
  "foldl (\<lambda>d b. dict_incr (f b) d) acc bs = foldl (\<lambda>d k. dict_incr k d) acc (map f bs)"
  by (induction bs arbitrary: acc) simp_all

lemma py_max_eq: "xs \<noteq> [] \<Longrightarrow> py_max xs = Inr (Max (set xs))"
proof (cases xs)
  case Nil
  assume "xs \<noteq> []"
  with Nil show ?thesis by simp
next
  case (Cons x ys)
  have "foldl (\<lambda>m y. if m < y then y else m) a ys = Max (set (a # ys))" for a
  proof (induction ys arbitrary: a)
    case Nil
    show ?case by simp
  next
    case (Cons y ys)
    have "(if a < y then y else a) = max a y"
      by (auto simp: max_def)
    moreover have "Max (insert (max a y) (set ys)) = Max (set (a # y # ys))"
      by (cases "ys = []") (simp_all add: max.assoc)
    ultimately show ?case
      using Cons.IH [of "max a y"] by simp
  qed
  with Cons show ?thesis by simp
qed

lemma count_list_fingerprint:
  "count_list (map fingerprint bs) fp = length (group_of bs fp)"
  by (induction bs) (auto simp: group_of_def)

lemma detail_of_eq:
  assumes "fp \<in> fingerprint ` set bs"
  shows "detail_of md5_hex bs (fp, length (group_of bs fp)) = Inr (the_detail md5_hex bs fp)"
proof -
  from assms have "map timestamp (group_of bs fp) \<noteq> []"
    by (auto simp: group_of_def filter_empty_conv)
  then have "py_max (map timestamp (group_of bs fp)) =
      Inr (Max (timestamp ` set (group_of bs fp)))"
    by (simp add: py_max_eq)
  then show ?thesis
    by (simp add: detail_of.simps group_of_def [symmetric] Let_def the_detail_def)
qed

lemma build_details_eq:
  "set ks \<subseteq> fingerprint ` set bs \<Longrightarrow>
   build_details md5_hex bs (map (\<lambda>k. (k, length (group_of bs k))) ks) =
     Inr (map (the_detail md5_hex bs) ks)"
  by (induction ks) (simp_all add: detail_of_eq)

lemma build_details_Counter:
  "build_details md5_hex bs (Counter (map fingerprint bs)) =
     Inr (map (the_detail md5_hex bs) (first_seen (map fingerprint bs)))"
  using build_details_eq [of "first_seen (map fingerprint bs)" bs md5_hex]
  by (simp add: Counter_eq count_list_fingerprint)

lemma get_analytics_eq:
  "get_analytics md5_hex bs =
     Inr \<lparr> summary = the_summary bs,
           fingerprint_details =
             sorted_by_reverse detail_count
               (map (the_detail md5_hex bs) (first_seen (map fingerprint bs))),
           timeline = the_timeline bs \<rparr>"
proof -
  let ?fps = "map fingerprint bs"
  have sus: "filter (\<lambda>(fp, n). 3 < n) (Counter ?fps) =
      map (\<lambda>k. (k, length (group_of bs k)))
        (filter (\<lambda>fp. 3 < length (group_of bs fp)) (first_seen ?fps))"
    by (simp add: Counter_eq count_list_fingerprint filter_map comp_def)
  have tl: "foldl (\<lambda>d b. dict_incr (strftime_hour (timestamp b)) d) [] bs =
      Counter (map (\<lambda>b. strftime_hour (timestamp b)) bs)"
    unfolding Counter_def by (rule dict_fold_eq_Counter)
  show ?thesis
    unfolding get_analytics_def find_all_def Let_def build_details_Counter sus tl
    by (simp add: the_summary_def the_timeline_def Let_def Counter_eq comp_def)
qed


subsection \<open>The stable descending sort\<close>

lemma set_sorted_by_reverse [simp]: "set (sorted_by_reverse f xs) = set xs"
  by (simp add: sorted_by_reverse_def)

lemma mset_sorted_by_reverse [simp]: "mset (sorted_by_reverse f xs) = mset xs"
  by (simp add: sorted_by_reverse_def)

lemma length_sorted_by_reverse [simp]: "length (sorted_by_reverse f xs) = length xs"
  by (simp add: sorted_by_reverse_def)

lemma sorted_by_reverse_descending:
  "sorted_wrt (\<lambda>a b. f b \<le> f a) (sorted_by_reverse f xs)"
proof -
  have "sorted_wrt (\<lambda>a b. f a \<le> f b) (sort_key f (rev xs))"
    using sorted_sort_key [of f "rev xs"] by (simp add: sorted_map)
  then show ?thesis
    by (simp add: sorted_by_reverse_def sorted_wrt_rev)
qed

lemma sorted_by_reverse_stable:
  "filter (\<lambda>y. f y = k) (sorted_by_reverse f xs) = filter (\<lambda>y. f y = k) xs"
  by (simp add: sorted_by_reverse_def rev_filter [symmetric] sort_key_stable)

lemma sorted_by_reverse_Nil_iff [simp]: "sorted_by_reverse f xs = [] \<longleftrightarrow> xs = []"
  using length_sorted_by_reverse [of f xs] by (metis length_0_conv)

lemma hd_sorted_by_reverse:
  assumes "xs \<noteq> []"
  shows "f (hd (sorted_by_reverse f xs)) = Max (f ` set xs)"
proof -
  let ?ys = "sorted_by_reverse f xs"
  from assms have ne: "?ys \<noteq> []" by simp
  then obtain y ys where ys: "?ys = y # ys" by (cases ?ys) auto
  have "sorted_wrt (\<lambda>a b. f b \<le> f a) ?ys" by (rule sorted_by_reverse_descending)
  with ys have "\<forall>z\<in>set ?ys. f z \<le> f y" by auto
  then have le: "\<forall>z\<in>set xs. f z \<le> f y" by simp
  have "y \<in> set ?ys" by (simp only: ys list.set_intros)
  then have mem: "y \<in> set xs" by simp
  have "Max (f ` set xs) = f y"
  proof (rule Max_eqI)
    show "finite (f ` set xs)" by simp
    show "\<And>v. v \<in> f ` set xs \<Longrightarrow> v \<le> f y" using le by blast
    show "f y \<in> f ` set xs" using mem by blast
  qed
  with ys show ?thesis by simp
qed

subsection \<open>Detail records\<close>

lemma the_detail_simps [simp]:
  "full_fingerprint (the_detail md5_hex bs fp) = fp"
  "fingerprint_id (the_detail md5_hex bs fp) = take 8 (md5_hex fp)"
  "detail_count (the_detail md5_hex bs fp) = length (group_of bs fp)"
  "detail_suspicious (the_detail md5_hex bs fp) \<longleftrightarrow> 3 < length (group_of bs fp)"
  "names_used (the_detail md5_hex bs fp) = list_of_set (map name (group_of bs fp))"
  "routes (the_detail md5_hex bs fp) = list_of_set (map route (group_of bs fp))"
  "last_booking (the_detail md5_hex bs fp) = isoformat (Max (timestamp ` set (group_of bs fp)))"
  "bookings (the_detail md5_hex bs fp) =
     map history_of (sorted_by_reverse timestamp (group_of bs fp))"
  by (simp_all add: the_detail_def)

lemma get_analytics_Inr:
  "get_analytics md5_hex bs =
     Inr \<lparr> summary = the_summary bs, fingerprint_details = the_details md5_hex bs,
           timeline = the_timeline bs \<rparr>"
  by (simp add: get_analytics_eq the_details_def)

lemma in_the_details:
  "d \<in> set (the_details md5_hex bs) \<longleftrightarrow>
     (\<exists>fp\<in>fingerprint ` set bs. d = the_detail md5_hex bs fp)"
  by (auto simp: the_details_def)

lemma group_of_nonempty: "fp \<in> fingerprint ` set bs \<Longrightarrow> group_of bs fp \<noteq> []"
  by (auto simp: group_of_def filter_empty_conv)

subsection \<open>The booking route\<close>

lemma book_ticket_success:
  assumes "book_ticket md5_hex env data coll = (coll', Inr resp)"
  obtains n s d fp where
    "data ''name'' = Some n" "data ''source'' = Some s" "data ''destination'' = Some d"
    "data ''fingerprint'' = Some fp"
    "coll' = coll @ [\<lparr> oid = new_oid env, name = n, source = s, destination = d,
                        fingerprint = fp, fingerprint_hash = take 8 (md5_hex fp),
                        timestamp = utcnow env, ip_address = remote_addr env \<rparr>]"
    "resp = \<lparr> success = True, booking_id = new_oid env,
              booking_count = length (group_of coll' fp),
              is_suspicious = (3 < length (group_of coll' fp)),
              message = ''Ticket booked successfully!'' \<rparr>"
  using assms
  by (auto simp: book_ticket_def subscript_def Let_def insert_one_def count_documents_def
      group_of_def required_fields_def split: if_splits option.splits)

lemma book_ticket_present:
  assumes "data ''name'' = Some n" "data ''source'' = Some s" "data ''destination'' = Some d"
    "data ''fingerprint'' = Some fp"
  shows "book_ticket md5_hex env data coll =
    (coll @ [\<lparr> oid = new_oid env, name = n, source = s, destination = d,
                        fingerprint = fp, fingerprint_hash = take 8 (md5_hex fp),
                        timestamp = utcnow env, ip_address = remote_addr env \<rparr>],
     Inr \<lparr> success = True, booking_id = new_oid env,
              booking_count = Suc (length (group_of coll fp)),
              is_suspicious = (3 < Suc (length (group_of coll fp))),
              message = ''Ticket booked successfully!'' \<rparr>)"
  using assms
  by (auto simp: book_ticket_def subscript_def Let_def insert_one_def count_documents_def
      group_of_def required_fields_def)



lemma ex_log_two_details: "length (the_details ex_md5 ex_log) = 2"
  by (simp add: the_details_def first_seen_def ex_log_def ex_booking_def)

subsection \<open>Groups\<close>

lemma first_seen_Cons: "first_seen (x # xs) = x # filter (\<lambda>y. y \<noteq> x) (first_seen xs)"
proof -
  have "remdups (ys @ [x]) = filter (\<lambda>y. y \<noteq> x) (remdups ys) @ [x]" for ys
    by (induction ys) auto
  then show ?thesis
    by (simp add: first_seen_def rev_filter)
qed

lemma history_of_simps [simp]:
  "entry_name (history_of b) = name b"
  "entry_route (history_of b) = route b"
  "entry_timestamp (history_of b) = isoformat (timestamp b)"
  "entry_ip (history_of b) = ip_address b"
  by (simp_all add: history_of_def)

lemma report_fields:
  assumes "get_analytics md5_hex bs = Inr r"
  shows "summary r = the_summary bs" "fingerprint_details r = the_details md5_hex bs"
    "timeline r = the_timeline bs"
  using assms by (auto simp: get_analytics_Inr)

lemma sum_list_mset_groups:
  "distinct ks \<Longrightarrow>
   (\<Sum>k\<leftarrow>ks. mset (filter (\<lambda>b. f b = k) bs)) = mset (filter (\<lambda>b. f b \<in> set ks) bs)"
proof (induction ks)
  case Nil
  show ?case by simp
next
  case (Cons k ks)
  then have "k \<notin> set ks" by simp
  then have "mset (filter (\<lambda>b. f b = k) bs) + mset (filter (\<lambda>b. f b \<in> set ks) bs) =
      mset (filter (\<lambda>b. f b = k \<or> f b \<in> set ks) bs)"
    by (induction bs) auto
  with Cons show ?case by simp
qed

lemma groups_partition:
  "(\<Sum>k\<leftarrow>first_seen (map fingerprint bs). mset (group_of bs k)) = mset bs"
proof -
  have "filter (\<lambda>b. fingerprint b \<in> set (first_seen (map fingerprint bs))) bs = bs"
    by (simp add: filter_id_conv)
  then show ?thesis
    using sum_list_mset_groups [of "first_seen (map fingerprint bs)" fingerprint bs]
    by (simp add: group_of_def)
qed

lemma size_sum_list_mset:
  "size (\<Sum>k\<leftarrow>ks. (g k :: 'b multiset)) = (\<Sum>k\<leftarrow>ks. size (g k))"
  by (induction ks) simp_all

lemma group_sizes_sum:
  "(\<Sum>k\<leftarrow>first_seen (map fingerprint bs). length (group_of bs k)) = length bs"
  using arg_cong [OF groups_partition [of bs], of size]
  by (simp add: size_sum_list_mset)

lemma sum_list_the_details:
  fixes g :: "fingerprint_detail \<Rightarrow> 'b::comm_monoid_add"
  shows "(\<Sum>d\<leftarrow>the_details md5_hex bs. g d) =
     (\<Sum>k\<leftarrow>first_seen (map fingerprint bs). g (the_detail md5_hex bs k))"
proof -
  have "mset (map g (the_details md5_hex bs)) =
      mset (map (\<lambda>k. g (the_detail md5_hex bs k)) (first_seen (map fingerprint bs)))"
    by (simp add: the_details_def image_mset.compositionality comp_def)
  then have "sum_mset (mset (map g (the_details md5_hex bs))) =
      sum_mset (mset (map (\<lambda>k. g (the_detail md5_hex bs k)) (first_seen (map fingerprint bs))))"
    by simp
  then show ?thesis
    by (simp only: sum_mset_sum_list)
qed

lemma map_fingerprint_the_details:
  "mset (map full_fingerprint (the_details md5_hex bs)) =
     mset (first_seen (map fingerprint bs))"
  by (simp add: the_details_def image_mset.compositionality comp_def)

lemma distinct_the_details_fingerprints:
  "distinct (map full_fingerprint (the_details md5_hex bs))"
  using map_fingerprint_the_details [of md5_hex bs]
  by (metis distinct_first_seen mset_eq_imp_distinct_iff)

lemma set_the_details_fingerprints:
  "set (map full_fingerprint (the_details md5_hex bs)) = fingerprint ` set bs"
  using arg_cong [OF map_fingerprint_the_details [of md5_hex bs], of set_mset]
  by simp

lemma the_summary_simps [simp]:
  "total_bookings (the_summary bs) = length bs"
  "unique_fingerprints (the_summary bs) = length (first_seen (map fingerprint bs))"
  by (simp_all add: the_summary_def Let_def)

subsection \<open>Zero-filled numerals and hour labels\<close>

lemma digit_char_less_iff: "a < 10 \<Longrightarrow> b < 10 \<Longrightarrow> digit_char a < digit_char b \<longleftrightarrow> a < b"
  by (simp add: digit_char_def less_char_def)

lemma digit_char_0: "digit_char 0 = CHR ''0''"
  by (simp add: digit_char_def char_of_eq_iff)

lemma zero_pad_Suc:
  assumes "0 < w"
  shows "zero_pad (Suc w) n = zero_pad w (n div 10) @ [digit_char (n mod 10)]"
proof (cases "n < 10")
  case True
  then have "decimal (n div 10) = [CHR ''0'']"
    by (simp add: decimal.simps [of 0] digit_char_0)
  moreover have "replicate (w - Suc 0) c @ [c] = replicate w c" for c :: char
    using assms by (cases w) (simp_all add: replicate_append_same)
  ultimately show ?thesis
    using True by (simp add: zero_pad_def decimal.simps [of n])
next
  case False
  then show ?thesis
    by (simp add: zero_pad_def decimal.simps [of n])
qed

lemma zero_pad_1: "n < 10 \<Longrightarrow> zero_pad (Suc 0) n = [digit_char n]"
  by (simp add: zero_pad_def decimal.simps [of n])

lemma length_zero_pad: "0 < w \<Longrightarrow> n < 10 ^ w \<Longrightarrow> length (zero_pad w n) = w"
proof (induction w arbitrary: n rule: nat_induct_non_zero)
  case 1
  then show ?case by (simp add: zero_pad_1)
next
  case (Suc w)
  from Suc.prems have "n div 10 < 10 ^ w"
    by (simp add: less_mult_imp_div_less mult.commute)
  with Suc show ?case
    by (simp add: zero_pad_Suc)
qed

lemma append_less_same_length:
  fixes xs ys :: "'a::linorder list"
  assumes "length xs = length ys"
  shows "xs @ us < ys @ vs \<longleftrightarrow> xs < ys \<or> (xs = ys \<and> us < vs)"
  using assms by (induction xs ys rule: list_induct2) auto

lemma div_mod_lex:
  fixes a b :: nat
  shows "a < b \<longleftrightarrow> a div 10 < b div 10 \<or> (a div 10 = b div 10 \<and> a mod 10 < b mod 10)"
proof -
  define qa ra qb rb where defs: "qa = a div 10" "ra = a mod 10" "qb = b div 10" "rb = b mod 10"
  have "a = 10 * qa + ra" "b = 10 * qb + rb" "ra < 10" "rb < 10"
    by (simp_all add: defs)
  then have "a < b \<longleftrightarrow> qa < qb \<or> (qa = qb \<and> ra < rb)"
    by linarith
  then show ?thesis
    by (simp only: defs)
qed

lemma zero_pad_less_iff:
  "0 < w \<Longrightarrow> a < 10 ^ w \<Longrightarrow> b < 10 ^ w \<Longrightarrow> zero_pad w a < zero_pad w b \<longleftrightarrow> a < b"
proof (induction w arbitrary: a b rule: nat_induct_non_zero)
  case 1
  then show ?case by (simp add: zero_pad_1 digit_char_less_iff)
next
  case (Suc w)
  define qa qb where defs: "qa = a div 10" "qb = b div 10"
  from Suc.prems have ab: "qa < 10 ^ w" "qb < 10 ^ w"
    by (simp_all add: defs less_mult_imp_div_less mult.commute)
  have len: "length (zero_pad w qa) = length (zero_pad w qb)"
    using Suc.hyps ab by (simp add: length_zero_pad)
  have lt: "zero_pad w qa < zero_pad w qb \<longleftrightarrow> qa < qb"
    using ab by (rule Suc.IH)
  have gt: "zero_pad w qb < zero_pad w qa \<longleftrightarrow> qb < qa"
    using ab(2) ab(1) by (rule Suc.IH)
  have eq: "zero_pad w qa = zero_pad w qb \<longleftrightarrow> qa = qb"
  proof
    assume "zero_pad w qa = zero_pad w qb"
    with lt gt have "\<not> qa < qb" "\<not> qb < qa" by simp_all
    then show "qa = qb" by simp
  qed simp
  have ar: "a < b \<longleftrightarrow> qa < qb \<or> (qa = qb \<and> a mod 10 < b mod 10)"
    unfolding defs by (rule div_mod_lex)
  have pa: "zero_pad (Suc w) a = zero_pad w qa @ [digit_char (a mod 10)]"
    and pb: "zero_pad (Suc w) b = zero_pad w qb @ [digit_char (b mod 10)]"
    unfolding defs using Suc.hyps by (rule zero_pad_Suc)+
  have dg: "digit_char (a mod 10) < digit_char (b mod 10) \<longleftrightarrow> a mod 10 < b mod 10"
    by (rule digit_char_less_iff) simp_all
  show ?case
    unfolding pa pb append_less_same_length [OF len] lt eq ar
    by (simp add: dg)
qed

lemma zero_pad_eq_iff:
  assumes "0 < w" "a < 10 ^ w" "b < 10 ^ w"
  shows "zero_pad w a = zero_pad w b \<longleftrightarrow> a = b"
proof
  assume "zero_pad w a = zero_pad w b"
  then have "\<not> zero_pad w a < zero_pad w b" "\<not> zero_pad w b < zero_pad w a"
    by simp_all
  with assms have "\<not> a < b" "\<not> b < a"
    by (simp_all add: zero_pad_less_iff)
  then show "a = b" by simp
qed simp

lemma pad_append_less:
  assumes "0 < w" "a < 10 ^ w" "b < 10 ^ w"
  shows "zero_pad w a @ us < zero_pad w b @ vs \<longleftrightarrow> a < b \<or> (a = b \<and> us < vs)"
proof -
  have "length (zero_pad w a) = length (zero_pad w b)"
    using assms by (simp add: length_zero_pad)
  then show ?thesis
    using assms by (simp add: append_less_same_length zero_pad_less_iff zero_pad_eq_iff)
qed

lemma bucket_label_less_iff:
  assumes "valid_bucket a" "valid_bucket b"
  shows "bucket_label a < bucket_label b \<longleftrightarrow> a < b"
proof -
  obtain y m d h where a: "a = (y, m, d, h)" by (cases a) auto
  obtain y' m' d' h' where b: "b = (y', m', d', h')" by (cases b) auto
  from assms have r: "y < 10 ^ 4" "m < 10 ^ 2" "d < 10 ^ 2" "h < 10 ^ 2"
    "y' < 10 ^ 4" "m' < 10 ^ 2" "d' < 10 ^ 2" "h' < 10 ^ 2"
    by (simp_all add: valid_bucket_def a b)
  show ?thesis
    unfolding a b bucket_label_def prod.case
    by (simp only: pad_append_less r zero_less_numeral append_Cons append_Nil
        Cons_less_Cons less_prod_simp) auto
qed

lemma strftime_hour_label: "strftime_hour t = bucket_label (hour_bucket t)"
  by (simp add: strftime_hour_def bucket_label_def hour_bucket_def)

lemma valid_bucket_hour: "valid_datetime t \<Longrightarrow> valid_bucket (hour_bucket t)"
  by (simp add: valid_datetime_def valid_bucket_def hour_bucket_def)

lemma bucket_label_eq_iff:
  assumes "valid_bucket a" "valid_bucket b"
  shows "bucket_label a = bucket_label b \<longleftrightarrow> a = b"
proof
  assume "bucket_label a = bucket_label b"
  then have "\<not> bucket_label a < bucket_label b" "\<not> bucket_label b < bucket_label a"
    by simp_all
  with assms have "\<not> a < b" "\<not> b < a"
    by (simp_all add: bucket_label_less_iff)
  then show "a = b" by simp
qed simp

subsection \<open>The timeline\<close>

lemma insort_key_map_inverse:
  assumes "\<And>k. f (g k) = k"
  shows "insort_key f (g k) (map g ks) = map g (insort_key (\<lambda>k. k) k ks)"
  by (induction ks) (simp_all add: assms)

lemma sort_key_map_inverse:
  assumes "\<And>k. f (g k) = k"
  shows "sort_key f (map g ks) = map g (sort_key (\<lambda>k. k) ks)"
  by (induction ks) (simp_all add: insort_key_map_inverse [of f g, OF assms])

lemma sort_first_seen: "sort_key (\<lambda>k. k) (first_seen ks) = sorted_list_of_set (set ks)"
proof -
  have "sorted_list_of_set (set (first_seen ks)) = sort (remdups (first_seen ks))"
    by (rule sorted_list_of_set_sort_remdups)
  then show ?thesis
    by (simp add: distinct_remdups_id)
qed

lemma the_timeline_keys:
  "the_timeline bs =
     (let ks = map (\<lambda>b. strftime_hour (timestamp b)) bs
      in last_24 (map (\<lambda>k. \<lparr> time = k, point_count = count_list ks k \<rparr>)
           (sorted_list_of_set (set ks))))"
proof -
  let ?ks = "map (\<lambda>b. strftime_hour (timestamp b)) bs"
  let ?mk = "\<lambda>k. \<lparr> time = k, point_count = count_list ?ks k \<rparr>"
  have "sort_key time (map ?mk (first_seen ?ks)) = map ?mk (sort_key (\<lambda>k. k) (first_seen ?ks))"
    by (rule sort_key_map_inverse) simp
  then show ?thesis
    by (simp add: the_timeline_def Let_def sorted_by_def sort_first_seen)
qed

lemma sorted_list_of_label_image:
  assumes "finite H" "\<forall>h\<in>H. valid_bucket h"
  shows "sorted_list_of_set (bucket_label ` H) = map bucket_label (sorted_list_of_set H)"
proof -
  let ?xs = "sorted_list_of_set H"
  have set: "set ?xs = H" using assms(1) by simp
  have "sorted_wrt (<) ?xs" by simp
  then have "sorted_wrt (\<lambda>a b. bucket_label a < bucket_label b) ?xs"
  proof (rule sorted_wrt_mono_rel [rotated])
    fix a b assume "a \<in> set ?xs" "b \<in> set ?xs" "a < b"
    with assms(2) set show "bucket_label a < bucket_label b"
      by (simp add: bucket_label_less_iff)
  qed
  then have "sorted_wrt (<) (map bucket_label ?xs)"
    by (simp add: sorted_wrt_map)
  then have "sorted (map bucket_label ?xs)" "distinct (map bucket_label ?xs)"
    by (simp_all add: strict_sorted_iff)
  moreover have "set (map bucket_label ?xs) = bucket_label ` H"
    using set by simp
  moreover have "finite (bucket_label ` H)" using assms(1) by simp
  ultimately show ?thesis
    by (metis sorted_list_of_set.idem_if_sorted_distinct)
qed

lemma last_24_map: "last_24 (map f xs) = map f (last_24 xs)"
  by (simp add: last_24_def drop_map)

lemma set_last_24: "set (last_24 xs) \<subseteq> set xs"
  by (simp add: last_24_def set_drop_subset)

lemma length_last_24: "length (last_24 xs) = min 24 (length xs)"
  by (simp add: last_24_def)

lemma count_labels:
  assumes "\<forall>b\<in>set bs. valid_datetime (timestamp b)" "valid_bucket h"
  shows "count_list (map (\<lambda>b. strftime_hour (timestamp b)) bs) (bucket_label h) =
     length (filter (\<lambda>b. hour_bucket (timestamp b) = h) bs)"
  using assms(1)
proof (induction bs)
  case Nil
  show ?case by simp
next
  case (Cons b bs)
  then have "valid_bucket (hour_bucket (timestamp b))"
    by (simp add: valid_bucket_hour)
  with assms(2) have "strftime_hour (timestamp b) = bucket_label h \<longleftrightarrow>
      hour_bucket (timestamp b) = h"
    by (simp add: strftime_hour_label bucket_label_eq_iff)
  with Cons show ?case by simp
qed

lemma the_timeline_buckets:
  assumes "\<forall>b\<in>set bs. valid_datetime (timestamp b)"
  shows "the_timeline bs =
     map (\<lambda>h. \<lparr> time = bucket_label h,
                point_count = length (filter (\<lambda>b. hour_bucket (timestamp b) = h) bs) \<rparr>)
       (last_24 (sorted_list_of_set ((\<lambda>b. hour_bucket (timestamp b)) ` set bs)))"
proof -
  let ?H = "(\<lambda>b. hour_bucket (timestamp b)) ` set bs"
  let ?ks = "map (\<lambda>b. strftime_hour (timestamp b)) bs"
  have valid: "\<forall>h\<in>?H. valid_bucket h"
    using assms by (auto simp: valid_bucket_hour)
  have "set ?ks = bucket_label ` ?H"
    by (auto simp: strftime_hour_label)
  then have "sorted_list_of_set (set ?ks) = map bucket_label (sorted_list_of_set ?H)"
    using valid by (simp add: sorted_list_of_label_image)
  then have "the_timeline bs =
      map (\<lambda>h. \<lparr> time = bucket_label h, point_count = count_list ?ks (bucket_label h) \<rparr>)
        (last_24 (sorted_list_of_set ?H))"
    by (simp add: the_timeline_keys Let_def last_24_map comp_def)
  also have "\<dots> = map (\<lambda>h. \<lparr> time = bucket_label h,
                point_count = length (filter (\<lambda>b. hour_bucket (timestamp b) = h) bs) \<rparr>)
        (last_24 (sorted_list_of_set ?H))"
  proof (rule map_cong [OF refl])
    fix h assume "h \<in> set (last_24 (sorted_list_of_set ?H))"
    then have "h \<in> ?H" using set_last_24 [of "sorted_list_of_set ?H"] by auto
    with valid have "valid_bucket h" by blast
    with assms show "\<lparr> time = bucket_label h, point_count = count_list ?ks (bucket_label h) \<rparr> =
        \<lparr> time = bucket_label h,
          point_count = length (filter (\<lambda>b. hour_bucket (timestamp b) = h) bs) \<rparr>"
      by (simp add: count_labels)
  qed
  finally show ?thesis .
qed

lemma ex_hours_buckets:
  "map (\<lambda>b. hour_bucket (timestamp b)) ex_hours =
     map (\<lambda>i. (2024, 5, 1 + i div 24, i mod 24)) [0..<30]"
  by (simp add: ex_hours_def ex_booking_def hour_bucket_def)

lemma ex_hours_card: "card ((\<lambda>b. hour_bucket (timestamp b)) ` set ex_hours) = 30"
proof -
  have "inj_on (\<lambda>i::nat. (2024::nat, 5::nat, 1 + i div 24, i mod 24)) A" for A
  proof (rule inj_onI)
    fix x y :: nat
    assume "(2024::nat, 5::nat, 1 + x div 24, x mod 24) = (2024, 5, 1 + y div 24, y mod 24)"
    then have "x div 24 = y div 24" "x mod 24 = y mod 24" by simp_all
    then show "x = y" by (metis div_mult_mod_eq)
  qed
  then have "distinct (map (\<lambda>i::nat. (2024::nat, 5::nat, 1 + i div 24, i mod 24)) [0..<30])"
    by (simp add: distinct_map)
  then have "distinct (map (\<lambda>b. hour_bucket (timestamp b)) ex_hours)"
    by (simp only: ex_hours_buckets)
  then have "card (set (map (\<lambda>b. hour_bucket (timestamp b)) ex_hours)) =
      length (map (\<lambda>b. hour_bucket (timestamp b)) ex_hours)"
    by (rule distinct_card)
  moreover have "length ex_hours = 30" by (simp add: ex_hours_def)
  ultimately show ?thesis
    by (simp only: set_map length_map)
qed

lemma ex_hours_stored: "\<forall>b\<in>set ex_hours. stored_timestamp (timestamp b)"
proof
  fix b assume "b \<in> set ex_hours"
  then obtain i where "i < 30" "timestamp b = Datetime 2024 5 (1 + i div 24) (i mod 24) 15 0 0"
    by (auto simp: ex_hours_def ex_booking_def)
  then show "stored_timestamp (timestamp b)"
    by (simp add: stored_timestamp_def valid_datetime_def) 
qed

subsection \<open>Rounding to the nearest double\<close>

lemma round_half_even_cases:
  obtains "round_half_even x = \<lfloor>x\<rfloor>" "x - of_int \<lfloor>x\<rfloor> \<le> 1 / 2"
  | "round_half_even x = \<lfloor>x\<rfloor> + 1" "1 / 2 \<le> x - of_int \<lfloor>x\<rfloor>"
proof -
  define d where "d = x - of_int \<lfloor>x\<rfloor>"
  have r: "round_half_even x =
      (if d < 1 / 2 then \<lfloor>x\<rfloor> else if 1 / 2 < d then \<lfloor>x\<rfloor> + 1
       else if even \<lfloor>x\<rfloor> then \<lfloor>x\<rfloor> else \<lfloor>x\<rfloor> + 1)"
    unfolding round_half_even_def Let_def d_def ..
  consider "d < 1 / 2" | "1 / 2 < d" | "d = 1 / 2" by linarith
  then have "(round_half_even x = \<lfloor>x\<rfloor> \<and> d \<le> 1 / 2) \<or>
      (round_half_even x = \<lfloor>x\<rfloor> + 1 \<and> 1 / 2 \<le> d)"
  proof cases
    case 1
    then show ?thesis unfolding r by simp
  next
    case 2
    then show ?thesis unfolding r by simp
  next
    case 3
    then show ?thesis unfolding r by simp
  qed
  then show thesis
    unfolding d_def using that by blast
qed

lemma round_half_even_error: "\<bar>of_int (round_half_even x) - x\<bar> \<le> 1 / 2"
proof (cases x rule: round_half_even_cases)
  case 1
  have "of_int \<lfloor>x\<rfloor> \<le> x" by simp
  with 1 show ?thesis by simp
next
  case 2
  have "x < of_int \<lfloor>x\<rfloor> + 1" by linarith
  with 2 show ?thesis by simp
qed

lemma round_half_even_le:
  assumes "x \<le> of_int n"
  shows "round_half_even x \<le> n"
proof (cases x rule: round_half_even_cases)
  case 1
  from assms have "\<lfloor>x\<rfloor> \<le> n" by (simp add: floor_le_iff)
  with 1 show ?thesis by simp
next
  case 2
  then have "of_int \<lfloor>x\<rfloor> < x" by simp
  with assms have "of_int \<lfloor>x\<rfloor> < (of_int n :: rat)" by simp
  then have "\<lfloor>x\<rfloor> < n" by simp
  with 2 show ?thesis by simp
qed

lemma round_half_even_ge:
  assumes "of_int n \<le> x"
  shows "n \<le> round_half_even x"
proof -
  from assms have "n \<le> \<lfloor>x\<rfloor>" by (simp add: le_floor_iff)
  then show ?thesis
    by (cases x rule: round_half_even_cases) simp_all
qed

lemma two_powi_of_nonneg: "0 \<le> k \<Longrightarrow> (2::rat) powi k = of_int (2 ^ nat k)"
  by (simp add: power_int_def)

lemma bitlen_bounds_rat:
  assumes "0 < a"
  shows "(2::rat) powi (bitlen a - 1) \<le> of_int a" "(of_int a :: rat) < 2 powi bitlen a"
proof -
  from assms have ge: "1 \<le> bitlen a"
    by (auto simp: bitlen_alt_def)
  from bitlen_bounds [OF assms] have "2 ^ nat (bitlen a - 1) \<le> a" "a < 2 ^ nat (bitlen a)"
    by simp_all
  then have "(of_int (2 ^ nat (bitlen a - 1)) :: rat) \<le> of_int a"
    "(of_int a :: rat) < of_int (2 ^ nat (bitlen a))"
    by (simp_all only: of_int_le_iff of_int_less_iff)
  with ge show "(2::rat) powi (bitlen a - 1) \<le> of_int a" "(of_int a :: rat) < 2 powi bitlen a"
    by (simp_all add: two_powi_of_nonneg)
qed

lemma binary_exponent_bounds:
  assumes "0 < x"
  shows "2 powi binary_exponent x \<le> x" and "x < 2 powi (binary_exponent x + 1)"
proof -
  obtain a b where q: "quotient_of x = (a, b)" by (cases "quotient_of x") auto
  then have b: "0 < b" and x: "x = of_int a / of_int b"
    by (simp_all add: quotient_of_denom_pos quotient_of_div)
  with assms have a: "0 < a"
    by (simp add: zero_less_divide_iff)
  define e where "e = bitlen a - bitlen b"
  have pb: "(0::rat) < of_int b" using b by simp
  have up: "x < 2 powi (e + 1)"
  proof -
    have "(2::rat) powi (e + 1) * 2 powi (bitlen b - 1) = 2 powi bitlen a"
      by (simp add: e_def flip: power_int_add)
    moreover have "(2::rat) powi (e + 1) * 2 powi (bitlen b - 1) \<le> 2 powi (e + 1) * of_int b"
      by (intro mult_left_mono bitlen_bounds_rat b) simp
    ultimately have "of_int a < (2::rat) powi (e + 1) * of_int b"
      using bitlen_bounds_rat(2) [OF a] by simp
    then show ?thesis
      using pb by (simp add: x pos_divide_less_eq)
  qed
  have low: "2 powi (e - 1) < x"
  proof -
    have "(2::rat) powi (e - 1) * 2 powi bitlen b = 2 powi (bitlen a - 1)"
      by (simp add: e_def flip: power_int_add)
    moreover have "(2::rat) powi (e - 1) * of_int b < 2 powi (e - 1) * 2 powi bitlen b"
      by (intro mult_strict_left_mono bitlen_bounds_rat b) simp
    ultimately have "(2::rat) powi (e - 1) * of_int b < of_int a"
      using bitlen_bounds_rat(1) [OF a] by simp
    then show ?thesis
      using pb by (simp add: x pos_less_divide_eq)
  qed
  have bx: "binary_exponent x = (if 2 powi e \<le> x then e else e - 1)"
    by (simp add: binary_exponent_def q e_def Let_def)
  show "2 powi binary_exponent x \<le> x"
    using low by (simp add: bx)
  show "x < 2 powi (binary_exponent x + 1)"
    using up by (simp add: bx)
qed

lemma binary_exponent_less:
  assumes "0 < x" "x < 2 powi k"
  shows "binary_exponent x < k"
proof (rule ccontr)
  assume "\<not> binary_exponent x < k"
  then have "(2::rat) powi k \<le> 2 powi binary_exponent x"
    by (intro power_int_increasing) simp_all
  with binary_exponent_bounds(1) [OF assms(1)] assms(2) show False by simp
qed

lemma double_ulp_pos: "0 < double_ulp x"
  by (simp add: double_ulp_def)

lemma double_ulp_le:
  assumes "0 < x" "x < 2 powi k" "- 1021 \<le> k"
  shows "double_ulp x \<le> 2 powi (k - 53)"
proof -
  from assms have "binary_exponent x < k" by (simp add: binary_exponent_less)
  with assms(3) have "max (binary_exponent \<bar>x\<bar>) (- 1022) - 52 \<le> k - 53"
    using assms(1) by simp
  then show ?thesis
    unfolding double_ulp_def by (intro power_int_increasing) simp_all
qed

lemma nearest_double_error: "\<bar>nearest_double x - x\<bar> \<le> double_ulp x / 2"
proof (cases "x = 0")
  case True
  then show ?thesis using double_ulp_pos [of x] by (simp add: nearest_double_def)
next
  case False
  let ?u = "double_ulp x"
  have u: "0 < ?u" by (rule double_ulp_pos)
  have "nearest_double x - x = (of_int (round_half_even (x / ?u)) - x / ?u) * ?u"
    using False u by (simp add: nearest_double_def field_simps)
  then have "\<bar>nearest_double x - x\<bar> = \<bar>of_int (round_half_even (x / ?u)) - x / ?u\<bar> * ?u"
    using u by (simp add: abs_mult)
  also have "\<dots> \<le> 1 / 2 * ?u"
    using u round_half_even_error [of "x / ?u"] by (intro mult_right_mono) simp_all
  finally show ?thesis by simp
qed

lemma nearest_double_nonneg:
  assumes "0 \<le> x"
  shows "0 \<le> nearest_double x"
proof (cases "x = 0")
  case True
  then show ?thesis by (simp add: nearest_double_def)
next
  case False
  have "of_int 0 \<le> x / double_ulp x"
    using assms double_ulp_pos [of x] by simp
  then have "0 \<le> round_half_even (x / double_ulp x)"
    by (rule round_half_even_ge)
  then show ?thesis
    using False double_ulp_pos [of x] by (simp add: nearest_double_def)
qed

lemma nearest_double_le_int:
  assumes "0 < x" "x \<le> of_int m" "x < 2 powi 53"
  shows "nearest_double x \<le> of_int m"
proof -
  define j where "j = 52 - max (binary_exponent \<bar>x\<bar>) (- 1022)"
  from assms have "binary_exponent x < 53" by (simp add: binary_exponent_less)
  with assms(1) have j: "0 \<le> j" by (simp add: j_def)
  have u: "double_ulp x = 1 / of_int (2 ^ nat j)"
  proof -
    have "double_ulp x = 2 powi (- j)" by (simp add: double_ulp_def j_def)
    also have "\<dots> = inverse (2 powi j)" by (simp add: power_int_minus)
    finally show ?thesis using j by (simp add: two_powi_of_nonneg inverse_eq_divide)
  qed
  have "x / double_ulp x = x * of_int (2 ^ nat j)" by (simp add: u)
  also have "\<dots> \<le> of_int m * of_int (2 ^ nat j)"
    using assms(2) by (intro mult_right_mono) simp_all
  finally have "x / double_ulp x \<le> of_int (m * 2 ^ nat j)" by simp
  then have "round_half_even (x / double_ulp x) \<le> m * 2 ^ nat j"
    by (rule round_half_even_le)
  then have "(of_int (round_half_even (x / double_ulp x)) :: rat) \<le> of_int (m * 2 ^ nat j)"
    by (simp only: of_int_le_iff)
  then have "of_int (round_half_even (x / double_ulp x)) * double_ulp x \<le> of_int (m * 2 ^ nat j) * double_ulp x"
    using double_ulp_pos [of x] by (intro mult_right_mono) simp_all
  also have "\<dots> = of_int m" by (simp add: u)
  finally show ?thesis
    using assms(1) by (simp add: nearest_double_def)
qed

lemma nearest_double_0 [simp]: "nearest_double 0 = 0"
  by (simp add: nearest_double_def)

lemma nearest_double_bounded:
  assumes "0 \<le> x" "x \<le> of_int m" "x < 2 powi 53"
  shows "0 \<le> nearest_double x" "nearest_double x \<le> of_int m"
proof -
  show "0 \<le> nearest_double x" using assms(1) by (rule nearest_double_nonneg)
  show "nearest_double x \<le> of_int m"
  proof (cases "x = 0")
    case True
    with assms(2) show ?thesis by simp
  next
    case False
    with assms(1) have "0 < x" by simp
    then show ?thesis using assms(2,3) by (rule nearest_double_le_int)
  qed
qed

lemma nearest_double_error_below:
  assumes "0 \<le> x" "x < 2 powi k" "- 1021 \<le> k"
  shows "\<bar>nearest_double x - x\<bar> \<le> 2 powi (k - 53) / 2"
proof (cases "x = 0")
  case True
  then show ?thesis by simp
next
  case False
  with assms(1) have "0 < x" by simp
  then have "double_ulp x \<le> 2 powi (k - 53)"
    using assms(2,3) by (rule double_ulp_le)
  with nearest_double_error [of x] show ?thesis by simp
qed

lemma py_round2_shape:
  "\<exists>k. py_round2 y = nearest_double (of_int k / 100) \<and> k = round_half_even (y * 100) \<and>
     \<bar>of_int k / 100 - y\<bar> \<le> 1 / 200"
proof -
  let ?k = "round_half_even (y * 100)"
  have "of_int ?k / 100 - y = (of_int ?k - y * 100) / 100"
    by (simp add: diff_divide_distrib)
  then have "\<bar>of_int ?k / 100 - y\<bar> = \<bar>of_int ?k - y * 100\<bar> / \<bar>100\<bar>"
    by (simp only: abs_divide)
  then have "\<bar>of_int ?k / 100 - y\<bar> = \<bar>of_int ?k - y * 100\<bar> / 100"
    by simp
  also have "\<dots> \<le> (1 / 2) / 100"
    using round_half_even_error [of "y * 100"] by (intro divide_right_mono) simp_all
  finally show ?thesis
    by (simp add: py_round2_def)
qed

lemma fraud_rate_steps:
  assumes "0 < t" "s \<le> t"
  defines "x0 \<equiv> (of_nat s / of_nat t :: rat)"
  defines "y1 \<equiv> nearest_double x0"
  defines "y2 \<equiv> nearest_double (y1 * 100)"
  shows "0 \<le> x0" "x0 \<le> 1" "0 \<le> y1" "y1 \<le> 1" "0 \<le> y2" "y2 \<le> 100"
    "\<bar>y1 - x0\<bar> \<le> 1 / 2 ^ 53" "\<bar>y2 - y1 * 100\<bar> \<le> 1 / 2 ^ 47"
proof -
  show x0: "0 \<le> x0" "x0 \<le> 1"
    using assms(1,2) by (simp_all add: x0_def)
  then have x0': "x0 \<le> of_int 1" "x0 < 2 powi 53" "x0 < 2 powi 1"
    by simp_all
  show y1: "0 \<le> y1" "y1 \<le> 1"
    using nearest_double_bounded [OF x0(1) x0'(1) x0'(2)] by (simp_all add: y1_def)
  then have z: "0 \<le> y1 * 100" "y1 * 100 \<le> of_int 100" "y1 * 100 < 2 powi 53"
    "y1 * 100 < 2 powi 7"
    by simp_all
  show "0 \<le> y2" "y2 \<le> 100"
    using nearest_double_bounded [OF z(1) z(2) z(3)] by (simp_all add: y2_def)
  have p: "(2::rat) powi (1 - 53) / 2 = 1 / 2 ^ 53" "(2::rat) powi (7 - 53) / 2 = 1 / 2 ^ 47"
    by (simp_all add: power_int_minus inverse_eq_divide)
  show "\<bar>y1 - x0\<bar> \<le> 1 / 2 ^ 53"
    using nearest_double_error_below [OF x0(1) x0'(3)] unfolding p y1_def by simp
  show "\<bar>y2 - y1 * 100\<bar> \<le> 1 / 2 ^ 47"
    using nearest_double_error_below [OF z(1) z(4)] unfolding p y2_def by simp
qed

lemma fraud_rate_of_bounds:
  assumes "s \<le> t"
  shows "0 \<le> fraud_rate_of s t" "fraud_rate_of s t \<le> 100"
proof -
  have "0 \<le> fraud_rate_of s t \<and> fraud_rate_of s t \<le> 100"
  proof (cases "0 < t")
    case False
    then show ?thesis by (simp add: fraud_rate_of_def)
  next
    case True
    let ?y2 = "nearest_double (nearest_double (of_nat s / of_nat t) * 100)"
    let ?k = "round_half_even (?y2 * 100)"
    from fraud_rate_steps [OF True assms] have y2: "0 \<le> ?y2" "?y2 \<le> 100"
      by simp_all
    then have "of_int 0 \<le> ?y2 * 100" "?y2 * 100 \<le> of_int 10000"
      by simp_all
    then have "0 \<le> ?k" "?k \<le> 10000"
      by (simp_all only: round_half_even_ge round_half_even_le)
    then have "(0::rat) \<le> of_int ?k / 100" "(of_int ?k :: rat) / 100 \<le> of_int 100"
      "(of_int ?k :: rat) / 100 < 2 powi 53"
      by simp_all
    from nearest_double_bounded [OF this] True show ?thesis
      by (simp add: fraud_rate_of_def py_round2_def)
  qed
  then show "0 \<le> fraud_rate_of s t" "fraud_rate_of s t \<le> 100"
    by simp_all
qed

lemma fraud_rate_of_accuracy:
  assumes "0 < t" "s \<le> t"
  shows "\<exists>k. fraud_rate_of s t = nearest_double (of_int k / 100) \<and>
     \<bar>of_int k / 100 - (of_nat s / of_nat t * 100 :: rat)\<bar> \<le> 1 / 200 + 1 / 2 ^ 45"
proof -
  define x0 :: rat where "x0 = of_nat s / of_nat t"
  define y1 where "y1 = nearest_double x0"
  define y2 where "y2 = nearest_double (y1 * 100)"
  from py_round2_shape [of y2] obtain k where
    k: "py_round2 y2 = nearest_double (of_int k / 100)" "\<bar>of_int k / 100 - y2\<bar> \<le> 1 / 200"
    by blast
  from fraud_rate_steps [OF assms] have
    e: "\<bar>y1 - x0\<bar> \<le> 1 / 2 ^ 53" "\<bar>y2 - y1 * 100\<bar> \<le> 1 / 2 ^ 47"
    by (simp_all only: x0_def y1_def y2_def)
  have "y1 * 100 - x0 * 100 = (y1 - x0) * 100"
    by (simp only: left_diff_distrib)
  then have "\<bar>y1 * 100 - x0 * 100\<bar> = \<bar>y1 - x0\<bar> * \<bar>100\<bar>"
    by (simp only: abs_mult)
  then have m: "\<bar>y1 * 100 - x0 * 100\<bar> = 100 * \<bar>y1 - x0\<bar>"
    by simp
  have "\<bar>of_int k / 100 - x0 * 100\<bar> \<le>
      \<bar>of_int k / 100 - y2\<bar> + \<bar>y2 - y1 * 100\<bar> + \<bar>y1 * 100 - x0 * 100\<bar>"
    by simp
  also have "\<dots> = \<bar>of_int k / 100 - y2\<bar> + \<bar>y2 - y1 * 100\<bar> + 100 * \<bar>y1 - x0\<bar>"
    by (simp only: m)
  also have "\<dots> \<le> 1 / 200 + 1 / 2 ^ 47 + 100 * (1 / 2 ^ 53)"
    by (intro add_mono mult_left_mono k(2) e) simp
  also have "\<dots> \<le> 1 / 200 + 1 / 2 ^ 45"
    by simp
  finally have "\<bar>of_int k / 100 - x0 * 100\<bar> \<le> 1 / 200 + 1 / 2 ^ 45" .
  moreover have "fraud_rate_of s t = nearest_double (of_int k / 100)"
    using k(1) assms(1) by (simp add: fraud_rate_of_def y2_def y1_def x0_def)
  ultimately show ?thesis
    unfolding x0_def by blast
qed

text \<open>Four suspicious bookings out of five give 80.0, out of seven 57.14.\<close>

lemma fraud_rate_4_of_5: "fraud_rate_of 4 5 = 80"
  by code_simp

lemma fraud_rate_4_of_7: "fraud_rate_of 4 7 = nearest_double (5714 / 100)"
  by code_simp

subsection \<open>The summary\<close>

lemma suspicious_sum:
  "(\<Sum>k\<leftarrow>filter P (first_seen (map fingerprint bs)). length (group_of bs k)) =
     length (filter (\<lambda>b. P (fingerprint b)) bs)"
proof -
  let ?ks = "filter P (first_seen (map fingerprint bs))"
  have eq: "filter (\<lambda>b. fingerprint b \<in> set ?ks) bs = filter (\<lambda>b. P (fingerprint b)) bs"
    by (rule filter_cong) auto
  have "distinct ?ks" by simp
  then have "(\<Sum>k\<leftarrow>?ks. mset (group_of bs k)) =
      mset (filter (\<lambda>b. fingerprint b \<in> set ?ks) bs)"
    unfolding group_of_def by (rule sum_list_mset_groups)
  then have "(\<Sum>k\<leftarrow>?ks. mset (group_of bs k)) = mset (filter (\<lambda>b. P (fingerprint b)) bs)"
    by (simp only: eq)
  from arg_cong [OF this, of size] show ?thesis
    by (simp add: size_sum_list_mset flip: mset_filter)
qed

lemma the_summary_suspicious:
  "suspicious_bookings (the_summary bs) =
     length (filter (\<lambda>b. 3 < length (group_of bs (fingerprint b))) bs)"
  "suspicious_users (the_summary bs) =
     length (filter (\<lambda>fp. 3 < length (group_of bs fp)) (first_seen (map fingerprint bs)))"
  "fraud_rate (the_summary bs) =
     fraud_rate_of (suspicious_bookings (the_summary bs)) (length bs)"
  by (simp_all add: the_summary_def Let_def suspicious_sum)

lemma ex_log_counts:
  "length ex_log = 7"
  "length (filter (\<lambda>b. 3 < length (group_of ex_log (fingerprint b))) ex_log) = 4"
  by (simp_all add: ex_log_def ex_booking_def group_of_def)

section \<open>The claims\<close>

text \<open>
  C9. \<^verbatim>\<open>clear_data\<close> discards every stored booking whatever the collection held, and
  the analytics of the resulting empty collection succeed with zero bookings, zero
  fingerprints, no detail record, no timeline point and a fraud rate of 0.
\<close>

theorem reset_then_analytics_empty:
  "clear_data coll = [] \<and>
   get_analytics md5_hex (clear_data coll) =
     Inr \<lparr> summary = \<lparr> total_bookings = 0, unique_fingerprints = 0, suspicious_users = 0,
                         suspicious_bookings = 0, fraud_rate = 0 \<rparr>,
           fingerprint_details = [], timeline = [] \<rparr>"
  by (simp add: clear_data_def delete_many_def get_analytics_def find_all_def Counter_def
      sorted_by_def sorted_by_reverse_def last_24_def fraud_rate_of_def)

text \<open>
  C1. Every detail record of the analytics carries the number of events of its
  fingerprint, and is flagged suspicious exactly when that number is greater than 3; the
  flag a successful booking returns is true exactly when the collection, after the
  insertion, holds more than 3 events of the booked fingerprint. A fingerprint with
  exactly 3 events is not suspicious in either place.
\<close>

theorem suspicious_iff_more_than_three:
  "(\<exists>r. get_analytics md5_hex bs = Inr r \<and>
      (\<forall>d\<in>set (fingerprint_details r).
         detail_count d = length (group_of bs (full_fingerprint d)) \<and>
         (detail_suspicious d \<longleftrightarrow> 3 < length (group_of bs (full_fingerprint d))) \<and>
         (length (group_of bs (full_fingerprint d)) = 3 \<longrightarrow> \<not> detail_suspicious d))) \<and>
   (\<forall>coll' resp. book_ticket md5_hex env data coll = (coll', Inr resp) \<longrightarrow>
      (\<exists>fp. data ''fingerprint'' = Some fp \<and>
         booking_count resp = length (group_of coll' fp) \<and>
         (is_suspicious resp \<longleftrightarrow> 3 < length (group_of coll' fp)) \<and>
         (length (group_of coll' fp) = 3 \<longrightarrow> \<not> is_suspicious resp)))"
proof (intro conjI allI impI)
  show "\<exists>r. get_analytics md5_hex bs = Inr r \<and>
      (\<forall>d\<in>set (fingerprint_details r).
         detail_count d = length (group_of bs (full_fingerprint d)) \<and>
         (detail_suspicious d \<longleftrightarrow> 3 < length (group_of bs (full_fingerprint d))) \<and>
         (length (group_of bs (full_fingerprint d)) = 3 \<longrightarrow> \<not> detail_suspicious d))"
    by (auto simp: get_analytics_Inr in_the_details)
next
  fix coll' resp
  assume "book_ticket md5_hex env data coll = (coll', Inr resp)"
  then show "\<exists>fp. data ''fingerprint'' = Some fp \<and>
         booking_count resp = length (group_of coll' fp) \<and>
         (is_suspicious resp \<longleftrightarrow> 3 < length (group_of coll' fp)) \<and>
         (length (group_of coll' fp) = 3 \<longrightarrow> \<not> is_suspicious resp)"
    by (elim book_ticket_success) simp
qed

theorem suspicious_iff_more_than_three_witness:
  "(\<exists>r. get_analytics ex_md5 ex_log = Inr r \<and> length (fingerprint_details r) = 2 \<and>
      list_all (\<lambda>d.
         detail_count d = length (group_of ex_log (full_fingerprint d)) \<and>
         (detail_suspicious d \<longleftrightarrow> 3 < length (group_of ex_log (full_fingerprint d))) \<and>
         (length (group_of ex_log (full_fingerprint d)) = 3 \<longrightarrow> \<not> detail_suspicious d))
        (fingerprint_details r)) \<and>
   (\<exists>coll' resp. book_ticket ex_md5 ex_env ex_payload ex_log = (coll', Inr resp) \<and>
      ex_payload ''fingerprint'' = Some ''fp-B'' \<and>
      booking_count resp = length (group_of coll' ''fp-B'') \<and>
      (is_suspicious resp \<longleftrightarrow> 3 < length (group_of coll' ''fp-B'')))"
proof -
  note main = suspicious_iff_more_than_three [of ex_md5 ex_log ex_env ex_payload ex_log]
  have len: "length (fingerprint_details r) = 2" if "get_analytics ex_md5 ex_log = Inr r" for r
    using that ex_log_two_details by (auto simp: get_analytics_Inr)
  have "\<exists>coll' resp. book_ticket ex_md5 ex_env ex_payload ex_log = (coll', Inr resp)"
    by (simp add: book_ticket_present [of _ "''asha''" "''Pune''" "''Delhi''" "''fp-B''"]
        ex_payload_def)
  then obtain coll' resp where
    ok: "book_ticket ex_md5 ex_env ex_payload ex_log = (coll', Inr resp)" by blast
  have fp: "ex_payload ''fingerprint'' = Some ''fp-B''"
    by (simp add: ex_payload_def)
  from main ok fp have
    "booking_count resp = length (group_of coll' ''fp-B'') \<and>
      (is_suspicious resp \<longleftrightarrow> 3 < length (group_of coll' ''fp-B''))"
    by fastforce
  with ok fp main len show ?thesis
    unfolding list_all_iff by blast
qed




text \<open>
  C5. A booking that succeeds leaves the collection with exactly one more document at
  its end, built from the payload, the clock and the driver's id. It returns that id and
  the number of stored documents with the same fingerprint counted after the insertion,
  which is the number before plus one and therefore at least 1.
\<close>

theorem successful_booking_appends_one:
  assumes "book_ticket md5_hex env data coll = (coll', Inr resp)"
  shows "\<exists>doc. coll' = coll @ [doc] \<and>
     data ''name'' = Some (name doc) \<and> data ''source'' = Some (source doc) \<and>
     data ''destination'' = Some (destination doc) \<and>
     data ''fingerprint'' = Some (fingerprint doc) \<and>
     timestamp doc = utcnow env \<and> oid doc = new_oid env \<and>
     booking_id resp = oid doc \<and>
     booking_count resp = count_documents coll' (fingerprint doc) \<and>
     booking_count resp = count_documents coll (fingerprint doc) + 1 \<and>
     1 \<le> booking_count resp"
  using assms
  by (elim book_ticket_success) (simp add: count_documents_def group_of_def)

theorem successful_booking_appends_one_witness:
  "\<exists>coll' resp doc. book_ticket ex_md5 ex_env ex_payload ex_log = (coll', Inr resp) \<and>
     coll' = ex_log @ [doc] \<and> fingerprint doc = ''fp-B'' \<and> booking_id resp = oid doc \<and>
     booking_count resp = count_documents ex_log ''fp-B'' + 1 \<and> booking_count resp = 4"
proof -
  have "\<exists>coll' resp. book_ticket ex_md5 ex_env ex_payload ex_log = (coll', Inr resp)"
    by (simp add: book_ticket_present [of _ "''asha''" "''Pune''" "''Delhi''" "''fp-B''"]
        ex_payload_def)
  then obtain coll' resp where
    ok: "book_ticket ex_md5 ex_env ex_payload ex_log = (coll', Inr resp)" by blast
  from successful_booking_appends_one [OF ok] obtain doc where
    doc: "coll' = ex_log @ [doc]" "ex_payload ''fingerprint'' = Some (fingerprint doc)"
      "booking_id resp = oid doc"
      "booking_count resp = count_documents ex_log (fingerprint doc) + 1"
    by blast
  have fp: "fingerprint doc = ''fp-B''"
    using doc(2) by (simp add: ex_payload_def)
  have "count_documents ex_log ''fp-B'' = 3"
    by (simp add: count_documents_def ex_log_def ex_booking_def)
  with ok doc fp show ?thesis by auto
qed

text \<open>
  C10. In every detail record the count equals the length of the history list, the
  history is not empty, \<^verbatim>\<open>last_booking\<close> is the timestamp of the first history entry, and
  the lists of names and of routes have no duplicates (and hold exactly the names and the
  routes of the fingerprint's events).
\<close>

theorem detail_records_consistent:
  "\<exists>r. get_analytics md5_hex bs = Inr r \<and>
     (\<forall>d\<in>set (fingerprint_details r).
        detail_count d = length (bookings d) \<and> bookings d \<noteq> [] \<and>
        last_booking d = entry_timestamp (hd (bookings d)) \<and>
        distinct (names_used d) \<and> distinct (routes d) \<and>
        set (names_used d) = name ` set (group_of bs (full_fingerprint d)) \<and>
        set (routes d) = route ` set (group_of bs (full_fingerprint d)))"
proof -
  have "detail_count d = length (bookings d) \<and> bookings d \<noteq> [] \<and>
        last_booking d = entry_timestamp (hd (bookings d)) \<and>
        distinct (names_used d) \<and> distinct (routes d) \<and>
        set (names_used d) = name ` set (group_of bs (full_fingerprint d)) \<and>
        set (routes d) = route ` set (group_of bs (full_fingerprint d))"
    if "d \<in> set (the_details md5_hex bs)" for d
  proof -
    from that obtain fp where fp: "fp \<in> fingerprint ` set bs" and d: "d = the_detail md5_hex bs fp"
      by (auto simp: in_the_details)
    let ?g = "group_of bs fp"
    from fp have ne: "?g \<noteq> []" by (rule group_of_nonempty)
    then have "hd (map history_of (sorted_by_reverse timestamp ?g)) =
        history_of (hd (sorted_by_reverse timestamp ?g))"
      by (simp add: hd_map)
    moreover have "timestamp (hd (sorted_by_reverse timestamp ?g)) = Max (timestamp ` set ?g)"
      using ne by (rule hd_sorted_by_reverse)
    ultimately show ?thesis
      using ne by (simp add: d list_of_set_def)
  qed
  then show ?thesis
    by (simp add: get_analytics_Inr)
qed

theorem detail_records_consistent_witness:
  "\<exists>r. get_analytics ex_md5 ex_log = Inr r \<and> length (fingerprint_details r) = 2 \<and>
     list_all (\<lambda>d.
        detail_count d = length (bookings d) \<and> bookings d \<noteq> [] \<and>
        last_booking d = entry_timestamp (hd (bookings d)) \<and>
        distinct (names_used d) \<and> distinct (routes d)) (fingerprint_details r)"
proof -
  from detail_records_consistent [of ex_md5 ex_log] obtain r where
    r: "get_analytics ex_md5 ex_log = Inr r" and
    all: "\<forall>d\<in>set (fingerprint_details r).
        detail_count d = length (bookings d) \<and> bookings d \<noteq> [] \<and>
        last_booking d = entry_timestamp (hd (bookings d)) \<and>
        distinct (names_used d) \<and> distinct (routes d)"
    by blast
  have "length (fingerprint_details r) = 2"
    using r ex_log_two_details by (simp add: report_fields)
  with r all show ?thesis
    unfolding list_all_iff by blast
qed

text \<open>
  C3. The detail records are the groups of a partition of the events by fingerprint
  equality: their fingerprints are pairwise distinct and are exactly the fingerprints
  that occur, every event has exactly one record with its fingerprint, each record counts
  and lists the events of its fingerprint, the groups taken together are the collection
  as a multiset (nothing dropped, nothing duplicated), and \<^verbatim>\<open>total_bookings\<close> is both the
  number of events and the sum of the counts.
\<close>

theorem grouping_is_partition:
  "\<exists>r. get_analytics md5_hex bs = Inr r \<and>
     distinct (map full_fingerprint (fingerprint_details r)) \<and>
     set (map full_fingerprint (fingerprint_details r)) = fingerprint ` set bs \<and>
     (\<forall>b\<in>set bs. \<exists>!d. d \<in> set (fingerprint_details r) \<and> full_fingerprint d = fingerprint b) \<and>
     (\<forall>d\<in>set (fingerprint_details r).
        detail_count d = length (group_of bs (full_fingerprint d)) \<and>
        mset (bookings d) = image_mset history_of (mset (group_of bs (full_fingerprint d)))) \<and>
     (\<Sum>d\<leftarrow>fingerprint_details r. mset (group_of bs (full_fingerprint d))) = mset bs \<and>
     total_bookings (summary r) = length bs \<and>
     total_bookings (summary r) = (\<Sum>d\<leftarrow>fingerprint_details r. detail_count d) \<and>
     unique_fingerprints (summary r) = card (fingerprint ` set bs)"
proof -
  let ?ds = "the_details md5_hex bs"
  have uniq: "\<exists>!d. d \<in> set ?ds \<and> full_fingerprint d = fingerprint b" if "b \<in> set bs" for b
  proof (rule ex1I [of _ "the_detail md5_hex bs (fingerprint b)"])
    show "the_detail md5_hex bs (fingerprint b) \<in> set ?ds \<and>
        full_fingerprint (the_detail md5_hex bs (fingerprint b)) = fingerprint b"
      using that by (auto simp: in_the_details)
    show "d = the_detail md5_hex bs (fingerprint b)"
      if "d \<in> set ?ds \<and> full_fingerprint d = fingerprint b" for d
      using that by (auto simp: in_the_details)
  qed
  have each: "detail_count d = length (group_of bs (full_fingerprint d)) \<and>
      mset (bookings d) = image_mset history_of (mset (group_of bs (full_fingerprint d)))"
    if "d \<in> set ?ds" for d
    using that by (auto simp: in_the_details)
  have part: "(\<Sum>d\<leftarrow>?ds. mset (group_of bs (full_fingerprint d))) = mset bs"
    by (simp add: sum_list_the_details groups_partition)
  have total: "length bs = (\<Sum>d\<leftarrow>?ds. detail_count d)"
    by (simp add: sum_list_the_details group_sizes_sum)
  have card: "length (first_seen (map fingerprint bs)) = card (fingerprint ` set bs)"
    using distinct_card [OF distinct_first_seen, of "map fingerprint bs"] by simp
  show ?thesis
    using uniq each part total card
    by (simp add: get_analytics_Inr distinct_the_details_fingerprints
        set_the_details_fingerprints del: set_map)
qed

theorem grouping_is_partition_witness:
  "\<exists>r. get_analytics ex_md5 ex_log = Inr r \<and> ex_log \<noteq> [] \<and>
     length (fingerprint_details r) = 2 \<and>
     list_all (\<lambda>b. \<exists>!d. d \<in> set (fingerprint_details r) \<and> full_fingerprint d = fingerprint b)
       ex_log \<and>
     list_all (\<lambda>d. detail_count d = length (group_of ex_log (full_fingerprint d)))
       (fingerprint_details r) \<and>
     (\<Sum>d\<leftarrow>fingerprint_details r. mset (group_of ex_log (full_fingerprint d))) = mset ex_log \<and>
     total_bookings (summary r) = 7 \<and>
     (\<Sum>d\<leftarrow>fingerprint_details r. detail_count d) = 7"
proof -
  from grouping_is_partition [of ex_md5 ex_log] obtain r where
    r: "get_analytics ex_md5 ex_log = Inr r" and
    u: "\<forall>b\<in>set ex_log. \<exists>!d. d \<in> set (fingerprint_details r) \<and>
          full_fingerprint d = fingerprint b" and
    c: "\<forall>d\<in>set (fingerprint_details r).
          detail_count d = length (group_of ex_log (full_fingerprint d))" and
    p: "(\<Sum>d\<leftarrow>fingerprint_details r. mset (group_of ex_log (full_fingerprint d))) =
          mset ex_log" and
    t: "total_bookings (summary r) = length ex_log"
       "total_bookings (summary r) = (\<Sum>d\<leftarrow>fingerprint_details r. detail_count d)"
    by blast
  have len: "length (fingerprint_details r) = 2"
    using r ex_log_two_details by (simp add: report_fields)
  have n: "length ex_log = 7" "ex_log \<noteq> []"
    by (simp_all add: ex_log_def)
  from r u c p t len n show ?thesis
    unfolding list_all_iff by auto
qed

text \<open>
  C8. The detail list is in descending order of count, and for every count \<open>n\<close> the
  records with that count appear in the order in which their fingerprints first occur in
  the collection, which is the order in which the counting pass discovers them.
\<close>

theorem details_sorted_by_count_descending:
  "\<exists>r. get_analytics md5_hex bs = Inr r \<and>
     sorted_wrt (\<lambda>a b. detail_count b \<le> detail_count a) (fingerprint_details r) \<and>
     (\<forall>n. map full_fingerprint (filter (\<lambda>d. detail_count d = n) (fingerprint_details r)) =
          filter (\<lambda>fp. length (group_of bs fp) = n) (first_seen (map fingerprint bs)))"
proof -
  let ?ks = "first_seen (map fingerprint bs)"
  have "map full_fingerprint (filter (\<lambda>d. detail_count d = n) (the_details md5_hex bs)) =
      filter (\<lambda>fp. length (group_of bs fp) = n) ?ks" for n
  proof -
    have "filter (\<lambda>d. detail_count d = n) (the_details md5_hex bs) =
        filter (\<lambda>d. detail_count d = n) (map (the_detail md5_hex bs) ?ks)"
      unfolding the_details_def by (rule sorted_by_reverse_stable)
    then show ?thesis
      by (simp add: filter_map comp_def)
  qed
  moreover have "sorted_wrt (\<lambda>a b. detail_count b \<le> detail_count a) (the_details md5_hex bs)"
    unfolding the_details_def by (rule sorted_by_reverse_descending)
  ultimately show ?thesis
    by (simp add: get_analytics_Inr)
qed

text \<open>
  C6. The history of every detail record is the image of a list \<open>hs\<close> that holds exactly
  the events of the record's fingerprint (as a multiset), is in descending order of
  timestamp, and keeps events with equal timestamps in the order they have in the
  collection.
\<close>

theorem history_newest_first_stable:
  "\<exists>r. get_analytics md5_hex bs = Inr r \<and>
     (\<forall>d\<in>set (fingerprint_details r).
        \<exists>hs. bookings d = map history_of hs \<and>
          mset hs = mset (group_of bs (full_fingerprint d)) \<and>
          sorted_wrt (\<lambda>a b. timestamp b \<le> timestamp a) hs \<and>
          (\<forall>t. filter (\<lambda>b. timestamp b = t) hs =
                filter (\<lambda>b. timestamp b = t) (group_of bs (full_fingerprint d))))"
proof -
  have "\<exists>hs. bookings d = map history_of hs \<and>
          mset hs = mset (group_of bs (full_fingerprint d)) \<and>
          sorted_wrt (\<lambda>a b. timestamp b \<le> timestamp a) hs \<and>
          (\<forall>t. filter (\<lambda>b. timestamp b = t) hs =
                filter (\<lambda>b. timestamp b = t) (group_of bs (full_fingerprint d)))"
    if "d \<in> set (the_details md5_hex bs)" for d
  proof -
    from that obtain fp where d: "d = the_detail md5_hex bs fp"
      by (auto simp: in_the_details)
    let ?hs = "sorted_by_reverse timestamp (group_of bs fp)"
    have "bookings d = map history_of ?hs" "mset ?hs = mset (group_of bs (full_fingerprint d))"
      by (simp_all add: d)
    moreover have "sorted_wrt (\<lambda>a b. timestamp b \<le> timestamp a) ?hs"
      by (rule sorted_by_reverse_descending)
    moreover have "filter (\<lambda>b. timestamp b = t) ?hs =
        filter (\<lambda>b. timestamp b = t) (group_of bs (full_fingerprint d))" for t
      by (simp add: d sorted_by_reverse_stable)
    ultimately show ?thesis by blast
  qed
  then show ?thesis
    by (simp add: get_analytics_Inr)
qed

theorem history_newest_first_stable_witness:
  "\<exists>r. get_analytics ex_md5 ex_log = Inr r \<and> length (fingerprint_details r) = 2 \<and>
     list_all (\<lambda>d.
        \<exists>hs. bookings d = map history_of hs \<and>
          mset hs = mset (group_of ex_log (full_fingerprint d)) \<and>
          sorted_wrt (\<lambda>a b. timestamp b \<le> timestamp a) hs \<and>
          (\<forall>t. filter (\<lambda>b. timestamp b = t) hs =
                filter (\<lambda>b. timestamp b = t) (group_of ex_log (full_fingerprint d))))
       (fingerprint_details r)"
proof -
  from history_newest_first_stable [of ex_md5 ex_log] obtain r where
    r: "get_analytics ex_md5 ex_log = Inr r" and
    all: "\<forall>d\<in>set (fingerprint_details r).
        \<exists>hs. bookings d = map history_of hs \<and>
          mset hs = mset (group_of ex_log (full_fingerprint d)) \<and>
          sorted_wrt (\<lambda>a b. timestamp b \<le> timestamp a) hs \<and>
          (\<forall>t. filter (\<lambda>b. timestamp b = t) hs =
                filter (\<lambda>b. timestamp b = t) (group_of ex_log (full_fingerprint d)))"
    by blast
  have "length (fingerprint_details r) = 2"
    using r ex_log_two_details by (simp add: report_fields)
  with r all show ?thesis
    unfolding list_all_iff by blast
qed

text \<open>
  C7. For events whose timestamps are \<^verbatim>\<open>datetime\<close> values with four-digit years, the
  timeline is computed from the distinct hour buckets \<open>hs\<close> of the events in
  chronological order: it holds one point for each of the last 24 of them (all of them
  when there are at most 24), labelled with the \<^verbatim>\<open>strftime\<close> key of the bucket and
  counting the events whose timestamp truncates to that hour, in the same chronological
  order; its keys are strictly increasing as strings and its length is the smaller of 24
  and the number of distinct hours.
\<close>

theorem timeline_last_24_hour_buckets:
  assumes "\<forall>b\<in>set bs. stored_timestamp (timestamp b)"
  shows "\<exists>r hs. get_analytics md5_hex bs = Inr r \<and>
     hs = sorted_list_of_set ((\<lambda>b. hour_bucket (timestamp b)) ` set bs) \<and>
     timeline r =
       map (\<lambda>h. \<lparr> time = bucket_label h,
                  point_count = length (filter (\<lambda>b. hour_bucket (timestamp b) = h) bs) \<rparr>)
         (drop (length hs - 24) hs) \<and>
     (\<forall>b\<in>set bs. strftime_hour (timestamp b) = bucket_label (hour_bucket (timestamp b))) \<and>
     sorted_wrt (<) hs \<and>
     sorted_wrt (<) (map time (timeline r)) \<and>
     length (timeline r) = min 24 (card ((\<lambda>b. hour_bucket (timestamp b)) ` set bs)) \<and>
     length (timeline r) \<le> 24"
proof -
  let ?H = "(\<lambda>b. hour_bucket (timestamp b)) ` set bs"
  let ?hs = "sorted_list_of_set ?H"
  let ?mk = "\<lambda>h. \<lparr> time = bucket_label h,
                  point_count = length (filter (\<lambda>b. hour_bucket (timestamp b) = h) bs) \<rparr>"
  from assms have valid: "\<forall>b\<in>set bs. valid_datetime (timestamp b)"
    by (simp add: stored_timestamp_def)
  then have tl: "the_timeline bs = map ?mk (drop (length ?hs - 24) ?hs)"
    by (simp add: the_timeline_buckets last_24_def)
  have vb: "\<forall>h\<in>?H. valid_bucket h"
    using valid by (auto simp: valid_bucket_hour)
  have strict: "sorted_wrt (<) ?hs" by simp
  then have "sorted_wrt (<) (drop (length ?hs - 24) ?hs)"
    by (rule sorted_wrt_drop)
  then have "sorted_wrt (\<lambda>a b. bucket_label a < bucket_label b) (drop (length ?hs - 24) ?hs)"
  proof (rule sorted_wrt_mono_rel [rotated])
    fix a b
    assume "a \<in> set (drop (length ?hs - 24) ?hs)" "b \<in> set (drop (length ?hs - 24) ?hs)"
      and "a < b"
    then have "a \<in> ?H" "b \<in> ?H"
      using set_drop_subset [of "length ?hs - 24" ?hs] by auto
    with vb have "valid_bucket a" "valid_bucket b" by blast+
    with \<open>a < b\<close> show "bucket_label a < bucket_label b"
      by (simp add: bucket_label_less_iff)
  qed
  then have keys: "sorted_wrt (<) (map time (the_timeline bs))"
    by (simp add: tl sorted_wrt_map comp_def)
  have len: "length (the_timeline bs) = min 24 (card ?H)"
    by (simp add: tl)
  show ?thesis
    using tl keys len strict
    by (simp add: get_analytics_Inr strftime_hour_label)
qed

theorem timeline_last_24_hour_buckets_witness:
  "list_all (\<lambda>b. stored_timestamp (timestamp b)) ex_hours \<and> length ex_hours = 30 \<and>
   (\<exists>r. get_analytics ex_md5 ex_hours = Inr r \<and>
      sorted_wrt (<) (map time (timeline r)) \<and> length (timeline r) = 24)"
proof -
  from timeline_last_24_hour_buckets [OF ex_hours_stored, of ex_md5] obtain r where
    "get_analytics ex_md5 ex_hours = Inr r" "sorted_wrt (<) (map time (timeline r))"
    "length (timeline r) = min 24 (card ((\<lambda>b. hour_bucket (timestamp b)) ` set ex_hours))"
    by blast
  moreover have "length ex_hours = 30" by (simp add: ex_hours_def)
  ultimately show ?thesis
    using ex_hours_stored by (auto simp: list_all_iff ex_hours_card)
qed

text \<open>
  C4. \<^verbatim>\<open>total_bookings\<close> is the number of events and \<^verbatim>\<open>suspicious_bookings\<close> the
  number of events whose fingerprint has more than 3 events, so the second never exceeds
  the first. The fraud rate lies between 0 and 100, is 0 for an empty collection (no
  division takes place), and otherwise is the floating-point value of
  \<^verbatim>\<open>round(suspicious / total * 100, 2)\<close>: the float nearest to a number \<open>k / 100\<close> with
  two decimal places that differs from the exact percentage by at most half a hundredth
  plus the rounding error of the two floating-point operations before it.
\<close>

theorem fraud_rate_rounded_percentage:
  "\<exists>r. get_analytics md5_hex bs = Inr r \<and>
     total_bookings (summary r) = length bs \<and>
     suspicious_bookings (summary r) =
       length (filter (\<lambda>b. 3 < length (group_of bs (fingerprint b))) bs) \<and>
     suspicious_bookings (summary r) \<le> total_bookings (summary r) \<and>
     0 \<le> fraud_rate (summary r) \<and> fraud_rate (summary r) \<le> 100 \<and>
     (total_bookings (summary r) = 0 \<longrightarrow> fraud_rate (summary r) = 0) \<and>
     (0 < total_bookings (summary r) \<longrightarrow>
        fraud_rate (summary r) =
          py_round2 (nearest_double (nearest_double
            (of_nat (suspicious_bookings (summary r)) / of_nat (total_bookings (summary r))) *
            100)) \<and>
        (\<exists>k. fraud_rate (summary r) = nearest_double (of_int k / 100) \<and>
           \<bar>of_int k / 100 -
             (of_nat (suspicious_bookings (summary r)) / of_nat (total_bookings (summary r)) *
              100 :: rat)\<bar> \<le> 1 / 200 + 1 / 2 ^ 45))"
proof -
  define s where "s = suspicious_bookings (the_summary bs)"
  define t where "t = length bs"
  have s: "s = length (filter (\<lambda>b. 3 < length (group_of bs (fingerprint b))) bs)"
    by (simp add: s_def the_summary_suspicious)
  then have le: "s \<le> t"
    by (simp add: t_def)
  have fr: "fraud_rate (the_summary bs) = fraud_rate_of s t"
    by (simp add: the_summary_suspicious s_def t_def)
  have b: "0 \<le> fraud_rate_of s t" "fraud_rate_of s t \<le> 100"
    using le by (rule fraud_rate_of_bounds)+
  have z: "t = 0 \<longrightarrow> fraud_rate_of s t = 0"
    by (simp add: fraud_rate_of_def)
  have p: "0 < t \<longrightarrow>
      fraud_rate_of s t =
        py_round2 (nearest_double (nearest_double (of_nat s / of_nat t) * 100)) \<and>
      (\<exists>k. fraud_rate_of s t = nearest_double (of_int k / 100) \<and>
         \<bar>of_int k / 100 - (of_nat s / of_nat t * 100 :: rat)\<bar> \<le> 1 / 200 + 1 / 2 ^ 45)"
    using fraud_rate_of_accuracy [of t s] le by (simp add: fraud_rate_of_def)
  have ts: "total_bookings (the_summary bs) = t" "suspicious_bookings (the_summary bs) = s"
    by (simp_all add: t_def s_def)
  have main: "total_bookings (the_summary bs) = length bs \<and>
     suspicious_bookings (the_summary bs) =
       length (filter (\<lambda>b. 3 < length (group_of bs (fingerprint b))) bs) \<and>
     suspicious_bookings (the_summary bs) \<le> total_bookings (the_summary bs) \<and>
     0 \<le> fraud_rate (the_summary bs) \<and> fraud_rate (the_summary bs) \<le> 100 \<and>
     (total_bookings (the_summary bs) = 0 \<longrightarrow> fraud_rate (the_summary bs) = 0) \<and>
     (0 < total_bookings (the_summary bs) \<longrightarrow>
        fraud_rate (the_summary bs) =
          py_round2 (nearest_double (nearest_double
            (of_nat (suspicious_bookings (the_summary bs)) /
             of_nat (total_bookings (the_summary bs))) *
            100)) \<and>
        (\<exists>k. fraud_rate (the_summary bs) = nearest_double (of_int k / 100) \<and>
           \<bar>of_int k / 100 -
             (of_nat (suspicious_bookings (the_summary bs)) /
              of_nat (total_bookings (the_summary bs)) *
              100 :: rat)\<bar> \<le> 1 / 200 + 1 / 2 ^ 45))"
    unfolding ts fr using s le b z p t_def by blast
  obtain r where r: "get_analytics md5_hex bs = Inr r"
    by (simp add: get_analytics_Inr)
  then have sr: "summary r = the_summary bs"
    by (rule report_fields)
  from conjI [OF r main [folded sr]] show ?thesis
    by (rule exI)
qed

theorem fraud_rate_rounded_percentage_witness:
  "(\<exists>r. get_analytics ex_md5 ex_log = Inr r \<and>
      total_bookings (summary r) = 7 \<and> suspicious_bookings (summary r) = 4 \<and>
      fraud_rate (summary r) = nearest_double (5714 / 100) \<and>
      0 \<le> fraud_rate (summary r) \<and> fraud_rate (summary r) \<le> 100 \<and>
      (\<exists>k. fraud_rate (summary r) = nearest_double (of_int k / 100) \<and>
         \<bar>of_int k / 100 - (400 / 7 :: rat)\<bar> \<le> 1 / 200 + 1 / 2 ^ 45)) \<and>
   (\<exists>r. get_analytics ex_md5 [] = Inr r \<and>
      total_bookings (summary r) = 0 \<and> fraud_rate (summary r) = 0)"
proof (rule conjI)
  from fraud_rate_rounded_percentage [of ex_md5 ex_log]
  show "\<exists>r. get_analytics ex_md5 ex_log = Inr r \<and>
      total_bookings (summary r) = 7 \<and> suspicious_bookings (summary r) = 4 \<and>
      fraud_rate (summary r) = nearest_double (5714 / 100) \<and>
      0 \<le> fraud_rate (summary r) \<and> fraud_rate (summary r) \<le> 100 \<and>
      (\<exists>k. fraud_rate (summary r) = nearest_double (of_int k / 100) \<and>
         \<bar>of_int k / 100 - (400 / 7 :: rat)\<bar> \<le> 1 / 200 + 1 / 2 ^ 45)"
  proof (elim exE conjE)
    fix r
    assume r: "get_analytics ex_md5 ex_log = Inr r"
      and t0: "total_bookings (summary r) = length ex_log"
      and s0: "suspicious_bookings (summary r) =
          length (filter (\<lambda>b. 3 < length (group_of ex_log (fingerprint b))) ex_log)"
      and b: "0 \<le> fraud_rate (summary r)" "fraud_rate (summary r) \<le> 100"
      and p: "0 < total_bookings (summary r) \<longrightarrow>
        fraud_rate (summary r) =
          py_round2 (nearest_double (nearest_double
            (of_nat (suspicious_bookings (summary r)) / of_nat (total_bookings (summary r))) *
            100)) \<and>
        (\<exists>k. fraud_rate (summary r) = nearest_double (of_int k / 100) \<and>
           \<bar>of_int k / 100 -
             (of_nat (suspicious_bookings (summary r)) / of_nat (total_bookings (summary r)) *
              100 :: rat)\<bar> \<le> 1 / 200 + 1 / 2 ^ 45)"
    have t: "total_bookings (summary r) = 7" and s: "suspicious_bookings (summary r) = 4"
      using t0 s0 by (simp_all only: ex_log_counts)
    have pos: "0 < total_bookings (summary r)"
      unfolding t by simp
    note pp = p [rule_format, OF pos]
    from pp [THEN conjunct1] have "fraud_rate (summary r) = fraud_rate_of 4 7"
      unfolding t s by (simp add: fraud_rate_of_def)
    then have v: "fraud_rate (summary r) = nearest_double (5714 / 100)"
      by (simp only: fraud_rate_4_of_7)
    have q: "(of_nat 4 / of_nat 7 * 100 :: rat) = 400 / 7"
      by simp
    from pp [THEN conjunct2] have k:
      "\<exists>k. fraud_rate (summary r) = nearest_double (of_int k / 100) \<and>
        \<bar>of_int k / 100 - (400 / 7 :: rat)\<bar> \<le> 1 / 200 + 1 / 2 ^ 45"
      unfolding t s q .
    show ?thesis
      by (intro exI [of _ r] conjI r t s v b k)
  qed
next
  from fraud_rate_rounded_percentage [of ex_md5 "[]"]
  show "\<exists>r. get_analytics ex_md5 [] = Inr r \<and>
      total_bookings (summary r) = 0 \<and> fraud_rate (summary r) = 0"
  proof (elim exE conjE)
    fix r
    assume r: "get_analytics ex_md5 [] = Inr r"
      and t0: "total_bookings (summary r) = length ([] :: booking list)"
      and z: "total_bookings (summary r) = 0 \<longrightarrow> fraud_rate (summary r) = 0"
    from t0 have t: "total_bookings (summary r) = 0" by simp
    with z have "fraud_rate (summary r) = 0" by simp
    with r t show ?thesis
      by (intro exI [of _ r] conjI)
  qed
qed

end
